theory Spec2Isabelle
  imports Main "HOL-Library.Word" "HOL-Library.Multiset" "HOL-Library.Sublist"
begin

section \<open>Merkle Patricia Tree of radix 16 (off-chain/lib/index.js)\<close>

text \<open>
  A shallow embedding of \<^verbatim>\<open>off-chain/lib/index.js\<close>. A Buffer is a list of bytes, a
  hex-encoded path is a \<^typ>\<open>string\<close>, \<^verbatim>\<open>undefined\<close> is \<open>None\<close>, and every
  \<^verbatim>\<open>throw\<close> and failed \<^verbatim>\<open>assert\<close> is an \<open>Inl\<close> result. A value passed as a JS string
  is represented by its UTF-8 bytes, which is what \<^verbatim>\<open>Buffer.from(value)\<close> makes of it.

  The hash function (\<^verbatim>\<open>blake2b\<close>, an npm dependency) is not part of the repository; every
  definition that hashes takes the function \<open>dg\<close> computed by \<^verbatim>\<open>digest\<close> as a parameter.
\<close>

type_synonym byte = "8 word"
type_synonym buffer = "byte list"
type_synonym digest = "buffer \<Rightarrow> buffer"

subsection \<open>Platform primitives\<close>

definition DIGEST_LENGTH :: nat where
  "DIGEST_LENGTH = 32"

definition digits :: string where
  "digits = ''0123456789abcdef''"

text \<open>\<^verbatim>\<open>buf.toString('hex')\<close>: two lowercase hex digits per byte, high nibble first.\<close>

definition toHex :: "buffer \<Rightarrow> string" where
  "toHex buf = concat (map (\<lambda>b. [digits ! (unat b div 16), digits ! (unat b mod 16)]) buf)"

text \<open>
  \<^verbatim>\<open>Number.parseInt(c, 16)\<close> on a one-character string; \<open>None\<close> is \<^verbatim>\<open>NaN\<close>.
\<close>

definition parseInt16 :: "char \<Rightarrow> nat option" where
  "parseInt16 c =
     (case map_of (zip ''0123456789abcdef'' [0 ..< 16]) c of
        Some n \<Rightarrow> Some n
      | None \<Rightarrow> map_of (zip ''ABCDEF'' [10 ..< 16]) c)"

text \<open>
  \<^verbatim>\<open>Number.parseInt(path[i], 16)\<close>: an index past the end reads \<^verbatim>\<open>undefined\<close>, which
  parses to \<^verbatim>\<open>NaN\<close>.
\<close>

definition parseIntAt :: "string \<Rightarrow> nat \<Rightarrow> nat option" where
  "parseIntAt path i = (if i < length path then parseInt16 (path ! i) else None)"

text \<open>\<^verbatim>\<open>path.startsWith(p)\<close>.\<close>

definition startsWith :: "string \<Rightarrow> string \<Rightarrow> bool" where
  "startsWith path p = (take (length p) path = p)"

text \<open>\<^verbatim>\<open>`${n}`\<close> for a number that is a natural number or \<^verbatim>\<open>NaN\<close>.\<close>

fun showNat :: "nat \<Rightarrow> string" where
  "showNat n = (if n < 10 then [digits ! n] else showNat (n div 10) @ [digits ! (n mod 10)])"

definition showNumber :: "nat option \<Rightarrow> string" where
  "showNumber n = (case n of None \<Rightarrow> ''NaN'' | Some k \<Rightarrow> showNat k)"

subsection \<open>Helpers of \<^verbatim>\<open>helpers.js\<close>\<close>

text \<open>
  Modelled from the spec: \<^verbatim>\<open>commonPrefix\<close> of \<^verbatim>\<open>helpers.js\<close>, which is not among the
  sources. The spec (4.3, step 2) makes it "the common hex-string prefix of all keys in the
  set", and scenario 3 "the longest common hex prefix".
\<close>

fun commonPrefix :: "string list \<Rightarrow> string" where
  "commonPrefix [] = []"
| "commonPrefix [w] = w"
| "commonPrefix (w # ws) = longest_common_prefix w (commonPrefix ws)"

text \<open>
  Modelled from the spec: \<^verbatim>\<open>nibbles\<close> of \<^verbatim>\<open>helpers.js\<close>, which is not among the sources.
  The spec (6.4): a prefix of \<open>n\<close> nibbles encodes to \<open>\<lceil>n/2\<rceil>\<close> bytes, pairs of nibbles
  (high, low) forming each byte in order; an odd final nibble occupies the high half of
  the last byte and the low half is zero.
\<close>

definition nibbleValue :: "char \<Rightarrow> nat" where
  "nibbleValue c = (case parseInt16 c of None \<Rightarrow> 0 | Some n \<Rightarrow> n)"

fun nibbles :: "string \<Rightarrow> buffer" where
  "nibbles [] = []"
| "nibbles [h] = [of_nat (16 * nibbleValue h)]"
| "nibbles (h # l # rest) = of_nat (16 * nibbleValue h + nibbleValue l) # nibbles rest"

subsection \<open>Errors\<close>

datatype error =
    AssertionError string
  | Error string
  | TypeError

subsection \<open>Tree, Leaf and BranchNode\<close>

text \<open>
  The class \<^verbatim>\<open>Tree\<close> and its two subclasses. Every instance has the fields \<^verbatim>\<open>hash\<close>,
  \<^verbatim>\<open>size\<close> and \<^verbatim>\<open>prefix\<close>; a Leaf adds \<^verbatim>\<open>value\<close>, a BranchNode \<^verbatim>\<open>children\<close>.
\<close>

datatype tree =
    Tree (hash: buffer) (size_t: nat) (prefix_t: string)
  | Leaf (hash: buffer) (size_t: nat) (prefix_t: string) (value_t: buffer)
  | BranchNode (hash: buffer) (size_t: nat) (prefix_t: string) (children: "tree option list")

definition Tree_new :: tree where
  "Tree_new = Tree (replicate DIGEST_LENGTH 0) 0 []"

definition isEmpty :: "tree \<Rightarrow> bool" where
  "isEmpty t = (size_t t = 0)"

text \<open>
  \<^verbatim>\<open>Leaf.setPrefix\<close> reads \<^verbatim>\<open>this.value\<close> and writes \<^verbatim>\<open>this.hash\<close> and \<^verbatim>\<open>this.prefix\<close>;
  the result is the pair of the two fields written. It is also called on the anonymous
  object \<^verbatim>\<open>{ value }\<close> by \<^verbatim>\<open>verify\<close>.
\<close>

definition Leaf_setPrefix :: "digest \<Rightarrow> buffer \<Rightarrow> string \<Rightarrow> buffer \<times> string" where
  "Leaf_setPrefix dg val pre = (dg val, pre)"

definition Leaf_new :: "digest \<Rightarrow> string \<Rightarrow> buffer \<Rightarrow> tree" where
  "Leaf_new dg pre val =
     (case Leaf_setPrefix dg val pre of (h, p) \<Rightarrow> Leaf h 1 p val)"

text \<open>
  \<^verbatim>\<open>BranchNode.setPrefix\<close> reads \<^verbatim>\<open>this.children\<close>, whose entries are sub-trees (in the
  constructor) or bare hashes (in \<^verbatim>\<open>verify\<close>): \<^verbatim>\<open>node.hash || node\<close> takes the hash of
  the first and the second as it is.
\<close>

definition hashOrSelf :: "tree + buffer \<Rightarrow> buffer" where
  "hashOrSelf node = (case node of Inl t \<Rightarrow> hash t | Inr h \<Rightarrow> h)"

definition BranchNode_setPrefix ::
  "digest \<Rightarrow> (tree + buffer) option list \<Rightarrow> string \<Rightarrow> buffer \<times> string" where
  "BranchNode_setPrefix dg chn pre =
     (let hs = concat (map (\<lambda>node. case node of None \<Rightarrow> [] | Some n \<Rightarrow> [hashOrSelf n]) chn)
      in (dg (nibbles pre @ concat hs), pre))"

text \<open>
  The \<^verbatim>\<open>forEach\<close> of the constructor: the index of the first child that is an empty tree.
  The children are an array, as \<^verbatim>\<open>fromList\<close> passes them; the object form, which
  \<^verbatim>\<open>intoVector\<close> of \<^verbatim>\<open>helpers.js\<close> turns into an array, is left out.
\<close>

fun firstEmpty :: "nat \<Rightarrow> tree option list \<Rightarrow> nat option" where
  "firstEmpty ix [] = None"
| "firstEmpty ix (node # nodes) =
     (case node of
        None \<Rightarrow> firstEmpty (ix + 1) nodes
      | Some t \<Rightarrow> if isEmpty t then Some ix else firstEmpty (ix + 1) nodes)"

definition BranchNode_new :: "digest \<Rightarrow> string \<Rightarrow> tree option list \<Rightarrow> error + tree" where
  "BranchNode_new dg pre chn =
     (if firstEmpty 0 chn \<noteq> None
      then Inl (AssertionError (''BranchNode cannot contain empty trees; but children[''
                  @ showNumber (firstEmpty 0 chn) @ ''] is empty.''))
      else if \<not> length (filter (\<lambda>node. node \<noteq> None) chn) > 1
      then Inl (AssertionError ''BranchNode must have at *at least 2* children. A BranchNode with a single child is a Leaf.'')
      else if length chn \<noteq> 16
      then Inl (AssertionError ''children must be a vector of *exactly 16* elements (possibly undefined)'')
      else
        (case BranchNode_setPrefix dg (map (map_option Inl) chn) pre of (h, p) \<Rightarrow>
           Inr (BranchNode h
                  (foldl (\<lambda>sz child. sz + (case child of None \<Rightarrow> 0 | Some t \<Rightarrow> size_t t)) 0 chn)
                  p chn)))"

subsection \<open>Tree.fromList\<close>

text \<open>
  \<^verbatim>\<open>intoKey\<close>: the hex encoding of the digest of the value.
\<close>

definition intoKey :: "digest \<Rightarrow> buffer \<Rightarrow> string" where
  "intoKey dg val = toHex (dg val)"

text \<open>
  The \<^verbatim>\<open>reduce\<close> that routes the stripped key-values to the branch \<open>digit\<close>. The assertion
  is checked for every key-value it visits, in order.
\<close>

fun bucket :: "char \<Rightarrow> (string \<times> buffer) list \<Rightarrow> error + (string \<times> buffer) list" where
  "bucket digit [] = Inr []"
| "bucket digit ((k, v) # kvs) =
     (if k = [] then Inl (AssertionError ''empty key for node [object Object]'')
      else (case bucket digit kvs of
              Inl e \<Rightarrow> Inl e
            | Inr acc \<Rightarrow> Inr (if hd k = digit then (tl k, v) # acc else acc)))"

text \<open>An array of results of calls that may throw: the first exception wins.\<close>

fun sequence :: "(error + 'a) list \<Rightarrow> error + 'a list" where
  "sequence [] = Inr []"
| "sequence (Inl e # rs) = Inl e"
| "sequence (Inr x # rs) = (case sequence rs of Inl e \<Rightarrow> Inl e | Inr xs \<Rightarrow> Inr (x # xs))"

definition keyWeight :: "(string \<times> buffer) list \<Rightarrow> nat" where
  "keyWeight kvs = sum_list (map (\<lambda>kv. length (fst kv)) kvs)"

lemma bucket_weight:
  "bucket digit kvs = Inr acc \<Longrightarrow> keyWeight acc + length acc \<le> keyWeight kvs \<and> length kvs \<le> keyWeight kvs"
proof (induction kvs arbitrary: acc)
  case Nil
  then show ?case by (simp add: keyWeight_def)
next
  case (Cons kv kvs)
  obtain k v where kv: "kv = (k, v)" by (cases kv)
  from Cons.prems kv have ne: "k \<noteq> []"
    by (auto split: if_splits)
  from Cons.prems kv ne obtain acc' where
    acc': "bucket digit kvs = Inr acc'" and
    acc: "acc = (if hd k = digit then (tl k, v) # acc' else acc')"
    by (auto split: sum.splits)
  from Cons.IH [OF acc'] have ih: "keyWeight acc' + length acc' \<le> keyWeight kvs"
    and ih2: "length kvs \<le> keyWeight kvs" by simp_all
  from ne have "length (tl k) + 1 = length k" by (cases k) simp_all
  with ih ih2 acc kv show ?case
    by (auto simp: keyWeight_def)
qed

lemma keyWeight_strip:
  "keyWeight (map (\<lambda>kv. (drop n (fst kv), snd kv)) kvs) \<le> keyWeight kvs"
  by (induction kvs) (auto simp: keyWeight_def)

function loop :: "digest \<Rightarrow> string \<Rightarrow> (string \<times> buffer) list \<Rightarrow> error + tree" where
  "loop dg branch keyValues =
     (if length keyValues = 0 then Inr Tree_new
      else
        let pre = commonPrefix (map fst keyValues) in
        if length keyValues = 1 then Inr (Leaf_new dg pre (snd (hd keyValues)))
        else
          let stripped = map (\<lambda>kv. (drop (length pre) (fst kv), snd kv)) keyValues in
          (case sequence (map (\<lambda>digit. case bucket digit stripped of
                                          Inl e \<Rightarrow> Inl e
                                        | Inr acc \<Rightarrow> loop dg [digit] acc) digits) of
             Inl e \<Rightarrow> Inl e
           | Inr trees \<Rightarrow>
               BranchNode_new dg pre (map (\<lambda>t. if isEmpty t then None else Some t) trees)))"
  by pat_completeness auto
termination
proof (relation "measure (\<lambda>(dg, branch, kvs). keyWeight kvs)")
  show "wf (measure (\<lambda>(dg, branch, kvs). keyWeight kvs))" by simp
next
  fix dg :: digest and branch :: string and keyValues :: "(string \<times> buffer) list"
    and pre stripped digit acc
  assume len0: "length keyValues \<noteq> 0" and len1: "length keyValues \<noteq> 1"
    and pre: "pre = commonPrefix (map fst keyValues)"
    and stripped: "stripped = map (\<lambda>kv. (drop (length pre) (fst kv), snd kv)) keyValues"
    and acc: "bucket digit stripped = Inr acc"
  from bucket_weight [OF acc]
  have a: "keyWeight acc + length acc \<le> keyWeight stripped"
    and b: "length stripped \<le> keyWeight stripped" by simp_all
  have c: "keyWeight stripped \<le> keyWeight keyValues"
    unfolding stripped by (rule keyWeight_strip)
  have d: "2 \<le> length stripped"
    using len0 len1 unfolding stripped by (cases keyValues; cases "tl keyValues") auto
  have "keyWeight acc < keyWeight keyValues"
  proof (cases acc)
    case Nil
    with b c d show ?thesis by (simp add: keyWeight_def)
  next
    case (Cons x xs)
    with a c show ?thesis by simp
  qed
  then show "((dg, [digit], acc), (dg, branch, keyValues)) \<in> measure (\<lambda>(dg, branch, kvs). keyWeight kvs)"
    by simp
qed

declare loop.simps [simp del]

definition fromList :: "digest \<Rightarrow> buffer list \<Rightarrow> error + tree" where
  "fromList dg vals = loop dg [] (map (\<lambda>val. (intoKey dg val, val)) vals)"

subsection \<open>Tree.childAt\<close>

text \<open>
  One step of the \<^verbatim>\<open>reduce\<close>: \<^verbatim>\<open>tree?.children[nibble]\<close>. The optional chaining
  covers an \<^verbatim>\<open>undefined\<close> tree only; a Leaf and the empty Tree have no \<^verbatim>\<open>children\<close>
  field, and indexing \<^verbatim>\<open>undefined\<close> is a TypeError. An array read at \<^verbatim>\<open>NaN\<close> or past
  the end is \<^verbatim>\<open>undefined\<close>.
\<close>

definition at :: "'a option list \<Rightarrow> nat option \<Rightarrow> 'a option" where
  "at xs i = (case i of None \<Rightarrow> None | Some n \<Rightarrow> if n < length xs then xs ! n else None)"

fun childAt_step :: "tree option \<Rightarrow> char \<Rightarrow> error + tree option" where
  "childAt_step None branch = Inr None"
| "childAt_step (Some (BranchNode h s p chn)) branch = Inr (at chn (parseInt16 branch))"
| "childAt_step (Some (Leaf h s p v)) branch = Inl TypeError"
| "childAt_step (Some (Tree h s p)) branch = Inl TypeError"

fun childAt_reduce :: "tree option \<Rightarrow> string \<Rightarrow> error + tree option" where
  "childAt_reduce acc [] = Inr acc"
| "childAt_reduce acc (branch # path) =
     (case childAt_step acc branch of
        Inl e \<Rightarrow> Inl e
      | Inr acc' \<Rightarrow> childAt_reduce acc' path)"

definition childAt :: "tree \<Rightarrow> string \<Rightarrow> error + tree option" where
  "childAt this path = childAt_reduce (Some this) path"

subsection \<open>Proof\<close>

record Step =
  skip :: nat
  neighbors :: "buffer option list"

record Proof =
  value_p :: buffer
  steps :: "Step list"

definition Proof_new :: "buffer \<Rightarrow> Proof" where
  "Proof_new val = \<lparr>value_p = val, steps = []\<rparr>"

text \<open>
  The \<^verbatim>\<open>flatMap\<close> of \<^verbatim>\<open>rewind\<close>: \<^verbatim>\<open>x?.hash.equals(target.hash) ? [] : [x?.hash]\<close> drops
  every child whose hash is the target's and keeps an absent child as \<^verbatim>\<open>undefined\<close>.
\<close>

definition rewind_neighbors :: "tree \<Rightarrow> tree option list \<Rightarrow> buffer option list" where
  "rewind_neighbors target chn =
     concat (map (\<lambda>x. case x of
                         None \<Rightarrow> [None]
                       | Some c \<Rightarrow> if hash c = hash target then [] else [Some (hash c)])
                 chn)"

definition rewind :: "Proof \<Rightarrow> tree \<Rightarrow> nat \<Rightarrow> tree option list \<Rightarrow> Proof" where
  "rewind this target skp chn =
     this\<lparr>steps := \<lparr>skip = skp, neighbors = rewind_neighbors target chn\<rparr> # steps this\<rparr>"

subsection \<open>walk and prove\<close>

lemma at_size:
  "at chn i = Some c \<Longrightarrow> size c < Suc (size_list (size_option size) chn)"
proof -
  assume a: "at chn i = Some c"
  then obtain n where n: "n < length chn" "chn ! n = Some c"
    by (auto simp: at_def split: option.splits if_splits)
  then have "Some c \<in> set chn" by (metis nth_mem)
  then have "size_option size (Some c) \<le> size_list (size_option size) chn"
    by (simp add: size_list_estimation')
  then show ?thesis by simp
qed

function walk :: "tree \<Rightarrow> string \<Rightarrow> error + Proof" where
  "walk (Tree h s p) path = Inl (Error (''cannot walk empty tree with path '' @ path))"
| "walk (Leaf h s p v) path =
     (if startsWith path p then Inr (Proof_new v)
      else Inl (AssertionError (''element at remaining path '' @ path
                  @ '' not in tree: non-matching prefix '' @ p)))"
| "walk (BranchNode h s p chn) path =
     (if \<not> startsWith path p
      then Inl (AssertionError (''element at remaining path '' @ path
                  @ '' not in tree: non-matching prefix '' @ p))
      else
        let skp = length p;
            path' = drop skp path;
            branch = parseIntAt path' 0
        in (case at chn branch of
              None \<Rightarrow> Inl (AssertionError (''element at remaining path '' @ path'
                         @ '' not in tree: no child at branch '' @ showNumber branch))
            | Some child \<Rightarrow>
                (case walk child (drop 1 path') of
                   Inl e \<Rightarrow> Inl e
                 | Inr pr \<Rightarrow> Inr (rewind pr child skp chn))))"
  by pat_completeness auto
termination
  by (relation "measure (\<lambda>(t, path). size t)") (auto dest: at_size)

definition prove :: "digest \<Rightarrow> tree \<Rightarrow> buffer \<Rightarrow> error + Proof" where
  "prove dg this val = walk this (intoKey dg val)"

subsection \<open>Proof.verify\<close>

text \<open>
  The callback of \<^verbatim>\<open>reduceRight\<close>, with the captured variable \<^verbatim>\<open>cursor\<close> threaded
  through. \<open>None\<close> is \<^verbatim>\<open>undefined\<close>. The cursor starts as the sum of every
  \<^verbatim>\<open>1 + step.skip\<close> and the same terms are taken off again, so the subtraction never
  goes below zero. \<^verbatim>\<open>slice\<close> reads \<^verbatim>\<open>NaN\<close> as 0.
\<close>

text \<open>
  \<^verbatim>\<open>step.neighbors.slice(0, nibble).concat(currentHash === undefined ? [] : currentHash)
  .concat(step.neighbors.slice(nibble))\<close>.
\<close>

definition verify_children :: "buffer option list \<Rightarrow> nat option \<Rightarrow> buffer option \<Rightarrow> buffer option list" where
  "verify_children nbs nibble currentHash =
     (let n = (case nibble of None \<Rightarrow> 0 | Some k \<Rightarrow> k)
      in take n nbs @ (case currentHash of None \<Rightarrow> [] | Some h \<Rightarrow> [Some h]) @ drop n nbs)"

definition verify_step :: "digest \<Rightarrow> string \<Rightarrow> Step \<Rightarrow> nat \<times> buffer option \<Rightarrow> nat \<times> buffer option" where
  "verify_step dg path step st =
     (case st of (cursor0, currentHash) \<Rightarrow>
        let cursor = cursor0 - (1 + skip step);
            nibble = parseIntAt path cursor;
            pre = (if skip step = 0 then [] else take (skip step) (drop cursor path));
            nbs = filter (\<lambda>x. x \<noteq> None) (neighbors step)
        in if currentHash = None \<and> length nbs = 1 then (cursor, hd nbs)
           else
             let chn = verify_children (neighbors step) nibble currentHash
             in (cursor, Some (fst (BranchNode_setPrefix dg (map (map_option Inr) chn) pre))))"

definition verify :: "digest \<Rightarrow> Proof \<Rightarrow> bool \<Rightarrow> buffer option" where
  "verify dg this withElement =
     (let path = intoKey dg (value_p this);
          cursor = foldl (\<lambda>cursor step. cursor + 1 + skip step) 0 (steps this);
          suffix = drop cursor path;
          zero = (if withElement then Some (fst (Leaf_setPrefix dg (value_p this) suffix)) else None)
      in snd (foldr (verify_step dg path) (steps this) (cursor, zero)))"

subsection \<open>Proof.serialise\<close>

text \<open>
  The array of objects that \<^verbatim>\<open>serialise\<close> hands to \<^verbatim>\<open>JSON.stringify\<close>; the rendering
  as JSON text is not modelled. \<^verbatim>\<open>Buffer.from(lookup)\<close> keeps each number modulo 256.
\<close>

record SerialisedStep =
  s_skip :: nat
  s_neighbors :: string
  s_lookup :: string

definition Buffer_from :: "nat list \<Rightarrow> buffer" where
  "Buffer_from ns = map of_nat ns"

fun lookup :: "nat \<Rightarrow> buffer option list \<Rightarrow> nat list" where
  "lookup nextDefined [] = []"
| "lookup nextDefined (x # xs) =
     nextDefined # lookup (if x \<noteq> None then nextDefined + 1 else nextDefined) xs"

definition serialise :: "Proof \<Rightarrow> SerialisedStep list" where
  "serialise this =
     map (\<lambda>step.
            \<lparr>s_skip = skip step,
             s_neighbors = concat (map (\<lambda>x. case x of None \<Rightarrow> [] | Some h \<Rightarrow> toHex h) (neighbors step)),
             s_lookup = toHex (Buffer_from (lookup 0 (neighbors step)))\<rparr>)
         (steps this)"

subsection \<open>Properties of a tree\<close>

text \<open>
  The children of a node that are present, in the order of their slots.
\<close>

definition present :: "'a option list \<Rightarrow> 'a list" where
  "present xs = concat (map (\<lambda>x. case x of None \<Rightarrow> [] | Some y \<Rightarrow> [y]) xs)"

text \<open>
  Every BranchNode of the tree has 16 slots (the third assertion of the constructor).
\<close>

fun sixteenSlots :: "tree \<Rightarrow> bool" where
  "sixteenSlots (BranchNode h s p chn) =
     (length chn = 16 \<and> list_all (\<lambda>node. case node of None \<Rightarrow> True | Some t \<Rightarrow> sixteenSlots t) chn)"
| "sixteenSlots (Leaf h s p v) = True"
| "sixteenSlots (Tree h s p) = True"

text \<open>
  No two children of a BranchNode of the tree have the same hash.
\<close>

fun distinctSiblingHashes :: "tree \<Rightarrow> bool" where
  "distinctSiblingHashes (BranchNode h s p chn) =
     (distinct (map hash (present chn))
      \<and> list_all (\<lambda>node. case node of None \<Rightarrow> True | Some t \<Rightarrow> distinctSiblingHashes t) chn)"
| "distinctSiblingHashes (Leaf h s p v) = True"
| "distinctSiblingHashes (Tree h s p) = True"

text \<open>
  Every node of the tree has the hash that its constructor computes under \<open>dg\<close>.
\<close>

fun hashesOk :: "digest \<Rightarrow> tree \<Rightarrow> bool" where
  "hashesOk dg (BranchNode h s p chn) =
     (h = dg (nibbles p @ concat (map hash (present chn)))
      \<and> list_all (\<lambda>node. case node of None \<Rightarrow> True | Some t \<Rightarrow> hashesOk dg t) chn)"
| "hashesOk dg (Leaf h s p v) = (h = dg v)"
| "hashesOk dg (Tree h s p) = True"

subsection \<open>Blake2b-256 on the messages of the worked examples\<close>

text \<open>
  The values \<^verbatim>\<open>"apple"\<close>, \<^verbatim>\<open>"banana"\<close>, \<^verbatim>\<open>"cherry"\<close> and \<^verbatim>\<open>"fig"\<close> as UTF-8 bytes,
  and the Blake2b-256 digests (32 bytes of output, no key) of every message that the runs
  evaluated below hash: the four values and the branch pre-images built from their
  digests. The keys of \<^verbatim>\<open>"cherry"\<close> and \<^verbatim>\<open>"fig"\<close> both start with \<^verbatim>\<open>8f\<close>.
\<close>

definition apple :: buffer where
  "apple =
    [0x61, 0x70, 0x70, 0x6c, 0x65]"

definition banana :: buffer where
  "banana =
    [0x62, 0x61, 0x6e, 0x61, 0x6e, 0x61]"

definition cherry :: buffer where
  "cherry =
    [0x63, 0x68, 0x65, 0x72, 0x72, 0x79]"

definition fig :: buffer where
  "fig =
    [0x66, 0x69, 0x67]"

definition digest_apple :: buffer where
  "digest_apple =
    [0x09, 0xad, 0x7d, 0xe5, 0x02, 0x3d, 0xec, 0x71, 0xb2, 0xb4, 0xd5, 0xdc,
     0x28, 0xd2, 0x96, 0x32, 0x7c, 0x6b, 0xbd, 0x6d, 0x47, 0xf1, 0x99, 0xcb,
     0xb9, 0xaf, 0xaf, 0xc8, 0x96, 0x7d, 0x19, 0xd9]"

definition digest_banana :: buffer where
  "digest_banana =
    [0x54, 0xd4, 0x44, 0x29, 0x17, 0xba, 0xba, 0x24, 0xa7, 0xc4, 0x17, 0xd8,
     0x05, 0x22, 0x1f, 0x17, 0x51, 0xd3, 0x3a, 0x2c, 0xf9, 0x14, 0xd6, 0x13,
     0x17, 0x24, 0xc8, 0x06, 0x68, 0xb7, 0x9f, 0x76]"

definition digest_cherry :: buffer where
  "digest_cherry =
    [0x8f, 0x04, 0xb7, 0xbe, 0xf6, 0xbc, 0x63, 0x6f, 0xf0, 0x5c, 0xe0, 0x2a,
     0x13, 0x33, 0xde, 0x4a, 0x52, 0xcb, 0xf7, 0x2c, 0x47, 0xf3, 0x0b, 0x0f,
     0xf8, 0x2a, 0xd2, 0xc4, 0xf4, 0x2d, 0xad, 0xc6]"

definition digest_fig :: buffer where
  "digest_fig =
    [0x8f, 0x70, 0x33, 0xae, 0x04, 0xa8, 0xb0, 0x1b, 0xdd, 0x91, 0x9a, 0x1c,
     0x25, 0xc4, 0xef, 0x3d, 0x05, 0x5a, 0xea, 0x73, 0x97, 0xf5, 0x61, 0x63,
     0xe5, 0x55, 0xe6, 0x38, 0xe6, 0x9f, 0x6a, 0x64]"

definition digest_apple_banana :: buffer where
  "digest_apple_banana =
    [0xa7, 0x15, 0x6a, 0xb6, 0x9d, 0xb8, 0x58, 0xb9, 0x2e, 0x9c, 0x59, 0xaa,
     0xd1, 0xe4, 0x15, 0x10, 0x90, 0xdf, 0xb3, 0xf9, 0x7e, 0xbc, 0xdd, 0xe7,
     0x2f, 0x34, 0xda, 0xe6, 0x60, 0xc8, 0x23, 0x4d]"

definition digest_8f_cherry_fig :: buffer where
  "digest_8f_cherry_fig =
    [0x12, 0x63, 0x6d, 0xbf, 0x7c, 0xef, 0xf4, 0x12, 0xba, 0x88, 0x78, 0x2a,
     0x94, 0x26, 0x7f, 0x8f, 0x41, 0x8f, 0xc8, 0x91, 0xec, 0xf4, 0x6b, 0xef,
     0x80, 0x31, 0x0c, 0xe9, 0x50, 0xd8, 0xeb, 0x4b]"

definition digest_8f_fig_cherry :: buffer where
  "digest_8f_fig_cherry =
    [0x9b, 0x1c, 0x33, 0x74, 0xe7, 0x68, 0x03, 0xc7, 0xfe, 0x4b, 0x84, 0xfe,
     0x56, 0x1d, 0xe9, 0x51, 0xfe, 0xce, 0x8a, 0x38, 0xef, 0x8b, 0x14, 0x0e,
     0xfa, 0xaa, 0x8c, 0xce, 0xc1, 0x5d, 0x69, 0x94]"

definition digest_f0_cherry_fig :: buffer where
  "digest_f0_cherry_fig =
    [0x9c, 0x32, 0x6e, 0xd7, 0xe3, 0xfc, 0x3b, 0xc3, 0x7a, 0x5d, 0xd5, 0x7e,
     0x63, 0x1c, 0x84, 0x7d, 0x48, 0xe4, 0x03, 0xae, 0xc1, 0xca, 0x05, 0x2e,
     0x91, 0x34, 0x67, 0xb8, 0x5c, 0x12, 0xc8, 0x73]"

definition digest_apple_f0_cherry_fig :: buffer where
  "digest_apple_f0_cherry_fig =
    [0x42, 0x72, 0xe5, 0x0c, 0x98, 0xae, 0x72, 0x6f, 0xa5, 0x4a, 0xb8, 0xdf,
     0x7c, 0x6d, 0xb7, 0xcb, 0xc2, 0x27, 0x40, 0x0d, 0x74, 0x6a, 0x07, 0x72,
     0x56, 0xb9, 0xcb, 0x94, 0x92, 0xd2, 0xe6, 0xee]"

definition blake2b_table :: "(buffer \<times> buffer) list" where
  "blake2b_table =
    [(apple, digest_apple),
     (banana, digest_banana),
     (cherry, digest_cherry),
     (fig, digest_fig),
     (digest_apple @ digest_banana, digest_apple_banana),
     ([0x8f] @ digest_cherry @ digest_fig, digest_8f_cherry_fig),
     ([0x8f] @ digest_fig @ digest_cherry, digest_8f_fig_cherry),
     ([0xf0] @ digest_cherry @ digest_fig, digest_f0_cherry_fig),
     (digest_apple @ digest_f0_cherry_fig, digest_apple_f0_cherry_fig)]"

text \<open>
  A digest function that is Blake2b-256 on the messages of the table (and 32 zero bytes
  elsewhere, where no run below evaluates it).
\<close>

definition blake2b_tab :: digest where
  "blake2b_tab msg =
     (case map_of blake2b_table msg of Some d \<Rightarrow> d | None \<Rightarrow> replicate DIGEST_LENGTH 0)"

subsection \<open>The trees and proofs of the worked examples\<close>

definition tree_apple :: tree where
  "tree_apple = Leaf digest_apple 1 (toHex digest_apple) apple"

definition tree_apple_banana :: tree where
  "tree_apple_banana =
     BranchNode digest_apple_banana 2 []
       ([Some (Leaf digest_apple 1 (drop 1 (toHex digest_apple)) apple)]
        @ replicate 4 None
        @ [Some (Leaf digest_banana 1 (drop 1 (toHex digest_banana)) banana)]
        @ replicate 10 None)"

definition tree_cherry_fig :: tree where
  "tree_cherry_fig =
     BranchNode digest_8f_cherry_fig 2 ''8f''
       ([Some (Leaf digest_cherry 1 (drop 3 (toHex digest_cherry)) cherry)]
        @ replicate 6 None
        @ [Some (Leaf digest_fig 1 (drop 3 (toHex digest_fig)) fig)]
        @ replicate 8 None)"

definition tree_apple_cherry_fig :: tree where
  "tree_apple_cherry_fig =
     BranchNode digest_apple_f0_cherry_fig 3 []
       ([Some (Leaf digest_apple 1 (drop 1 (toHex digest_apple)) apple)]
        @ replicate 7 None
        @ [Some (BranchNode digest_f0_cherry_fig 2 ''f''
                   ([Some (Leaf digest_cherry 1 (drop 3 (toHex digest_cherry)) cherry)]
                    @ replicate 6 None
                    @ [Some (Leaf digest_fig 1 (drop 3 (toHex digest_fig)) fig)]
                    @ replicate 8 None))]
        @ replicate 7 None)"

text \<open>The proof of \<^verbatim>\<open>"cherry"\<close> in the tree of \<^verbatim>\<open>"cherry"\<close> and \<^verbatim>\<open>"fig"\<close>.\<close>

definition proof_cherry :: Proof where
  "proof_cherry =
     \<lparr>value_p = cherry,
      steps = [\<lparr>skip = 2, neighbors = replicate 6 None @ [Some digest_fig] @ replicate 8 None\<rparr>]\<rparr>"

text \<open>The proof of \<^verbatim>\<open>"apple"\<close> in the tree of \<^verbatim>\<open>"apple"\<close>, \<^verbatim>\<open>"cherry"\<close> and \<^verbatim>\<open>"fig"\<close>.\<close>

definition proof_apple_3 :: Proof where
  "proof_apple_3 =
     \<lparr>value_p = apple,
      steps = [\<lparr>skip = 0,
                neighbors = replicate 7 None @ [Some digest_f0_cherry_fig] @ replicate 7 None\<rparr>]\<rparr>"

text \<open>The proof of \<^verbatim>\<open>"apple"\<close> in the tree of \<^verbatim>\<open>"apple"\<close> and \<^verbatim>\<open>"banana"\<close>.\<close>

definition proof_apple_2 :: Proof where
  "proof_apple_2 =
     \<lparr>value_p = apple,
      steps = [\<lparr>skip = 0, neighbors = replicate 4 None @ [Some digest_banana] @ replicate 10 None\<rparr>]\<rparr>"

section \<open>Node hashes\<close>

text \<open>
  C4. The hash of a Leaf is the digest of its value alone: the constructor stores
  \<open>dg value\<close>, \<^verbatim>\<open>setPrefix\<close> called with any other prefix writes \<open>dg value\<close> again, and
  so two leaves with the same value and different prefixes have the same hash.
\<close>

theorem leaf_hash_is_digest_of_value:
  "hash (Leaf_new dg pre val) = dg val
   \<and> fst (Leaf_setPrefix dg (value_t (Leaf_new dg pre val)) pre') = dg val
   \<and> hash (Leaf_new dg pre val) = hash (Leaf_new dg pre' val)"
  by (simp add: Leaf_new_def Leaf_setPrefix_def)

theorem leaf_hash_is_digest_of_value_witness:
  "blake2b_tab apple = digest_apple
   \<and> hash (Leaf_new blake2b_tab ''09'' apple) = blake2b_tab apple
   \<and> hash (Leaf_new blake2b_tab ''09'' apple) = hash (Leaf_new blake2b_tab ''9ad7'' apple)"
proof -
  have "blake2b_tab apple = digest_apple" by code_simp
  with leaf_hash_is_digest_of_value [of blake2b_tab "''09''" apple "''9ad7''"]
  show ?thesis by blast
qed

section \<open>Proof.verify\<close>

text \<open>
  C1, at the input \<^verbatim>\<open>Tree.fromList(['cherry', 'fig']).prove('cherry').verify(true)\<close>. The
  tree is a BranchNode with prefix \<^verbatim>\<open>8f\<close> and the leaves in the slots 0 and 7; its hash is
  the digest of \<^verbatim>\<open>8f\<close>, the hash of \<^verbatim>\<open>cherry\<close> and the hash of \<^verbatim>\<open>fig\<close>, in this order.
  \<^verbatim>\<open>verify\<close> reads the nibble at \<^verbatim>\<open>path[cursor]\<close>, the first nibble of the prefix (8),
  where \<^verbatim>\<open>walk\<close> branched on the nibble after the prefix (0), puts the hash of \<^verbatim>\<open>cherry\<close>
  after that of \<^verbatim>\<open>fig\<close> and returns another hash than the root's.
\<close>

theorem verify_with_element_misses_root:
  "fromList blake2b_tab [cherry, fig] = Inr tree_cherry_fig
   \<and> prove blake2b_tab tree_cherry_fig cherry = Inr proof_cherry
   \<and> verify blake2b_tab proof_cherry True = Some digest_8f_fig_cherry
   \<and> hash tree_cherry_fig = digest_8f_cherry_fig
   \<and> digest_8f_fig_cherry \<noteq> digest_8f_cherry_fig"
  by code_simp

text \<open>
  C2, at the input
  \<^verbatim>\<open>Tree.fromList(['apple', 'cherry', 'fig']).prove('apple').verify(false)\<close>. The root has
  two children, the leaf of \<^verbatim>\<open>apple\<close> in slot 0 and, in slot 8, a BranchNode with prefix
  \<^verbatim>\<open>f\<close> over \<^verbatim>\<open>cherry\<close> and \<^verbatim>\<open>fig\<close>. With one neighbor left \<^verbatim>\<open>verify\<close> returns the
  neighbor's hash as it is, the digest over the prefix \<^verbatim>\<open>f\<close>; the tree of \<^verbatim>\<open>cherry\<close> and
  \<^verbatim>\<open>fig\<close> alone has the prefix \<^verbatim>\<open>8f\<close> and another hash.
\<close>

theorem verify_without_element_misses_root:
  "fromList blake2b_tab [apple, cherry, fig] = Inr tree_apple_cherry_fig
   \<and> prove blake2b_tab tree_apple_cherry_fig apple = Inr proof_apple_3
   \<and> verify blake2b_tab proof_apple_3 False = Some digest_f0_cherry_fig
   \<and> fromList blake2b_tab [cherry, fig] = Inr tree_cherry_fig
   \<and> hash tree_cherry_fig = digest_8f_cherry_fig
   \<and> digest_f0_cherry_fig \<noteq> digest_8f_cherry_fig"
  by code_simp




section \<open>Tree.childAt\<close>

text \<open>
  C9, at the input \<^verbatim>\<open>Tree.fromList(['apple']).childAt('0')\<close>: the tree is a Leaf, a Leaf
  has no \<^verbatim>\<open>children\<close>, and \<^verbatim>\<open>tree?.children[nibble]\<close> throws a TypeError. The same
  happens below the root, at \<^verbatim>\<open>Tree.fromList(['apple', 'banana']).childAt('01')\<close>.
\<close>

theorem childAt_below_leaf_throws:
  "fromList blake2b_tab [apple] = Inr tree_apple
   \<and> childAt tree_apple ''0'' = Inl TypeError
   \<and> fromList blake2b_tab [apple, banana] = Inr tree_apple_banana
   \<and> childAt tree_apple_banana ''01'' = Inl TypeError"
  by code_simp

section \<open>The neighbors of a step and the children that verify rebuilds\<close>

text \<open>
  C10, at the input \<^verbatim>\<open>Tree.fromList(['cherry', 'fig']).prove('cherry').verify(true)\<close>. The
  one step of the proof has 15 neighbors: the hashes of the slots other than slot 0, the
  slot of \<^verbatim>\<open>cherry\<close>, in ascending order, \<^verbatim>\<open>undefined\<close> for an absent slot. The path took
  slot 0 at \<^verbatim>\<open>path[2]\<close>, after the prefix \<^verbatim>\<open>8f\<close>. The step of \<^verbatim>\<open>verify\<close>, entered with the
  cursor 3 and the hash of \<^verbatim>\<open>cherry\<close>, reads the nibble 8 at \<^verbatim>\<open>path[0]\<close>, the first nibble
  of the prefix, and inserts the accumulator at index 8: the 16 entries it rebuilds are
  not the hashes of the 16 children, and the hash of \<^verbatim>\<open>fig\<close> comes before that of
  \<^verbatim>\<open>cherry\<close>.
\<close>

theorem verify_children_wrong_slot:
  "fromList blake2b_tab [cherry, fig] = Inr tree_cherry_fig
   \<and> prove blake2b_tab tree_cherry_fig cherry = Inr proof_cherry
   \<and> length (steps proof_cherry) = 1
   \<and> length (neighbors (hd (steps proof_cherry))) = 15
   \<and> neighbors (hd (steps proof_cherry))
       = map (map_option hash) (take 0 (children tree_cherry_fig) @ drop 1 (children tree_cherry_fig))
   \<and> parseIntAt (intoKey blake2b_tab cherry) 2 = Some 0
   \<and> parseIntAt (intoKey blake2b_tab cherry) 0 = Some 8
   \<and> verify_step blake2b_tab (intoKey blake2b_tab cherry) (hd (steps proof_cherry))
         (3, Some digest_cherry)
       = (0, Some (fst (BranchNode_setPrefix blake2b_tab
                         (map (map_option Inr)
                            (verify_children (neighbors (hd (steps proof_cherry))) (Some 8)
                               (Some digest_cherry)))
                         ''8f'')))
   \<and> verify_children (neighbors (hd (steps proof_cherry))) (Some 8) (Some digest_cherry)
       = replicate 6 None @ [Some digest_fig, None, Some digest_cherry] @ replicate 7 None
   \<and> map (map_option hash) (children tree_cherry_fig)
       = [Some digest_cherry] @ replicate 6 None @ [Some digest_fig] @ replicate 8 None
   \<and> verify_children (neighbors (hd (steps proof_cherry))) (Some 8) (Some digest_cherry)
       \<noteq> map (map_option hash) (children tree_cherry_fig)"
  by code_simp

section \<open>The hash of a BranchNode\<close>

lemma present_by_index:
  "concat (map (\<lambda>x. case x of None \<Rightarrow> [] | Some y \<Rightarrow> [f y]) xs)
   = map (\<lambda>i. f (the (xs ! i))) (filter (\<lambda>i. xs ! i \<noteq> None) [0 ..< length xs])"
proof (induction xs rule: rev_induct)
  case Nil
  show ?case by simp
next
  case (snoc x xs)
  have a: "\<And>x. filter (\<lambda>i. (xs @ [x]) ! i \<noteq> None) [0 ..< length xs]
           = filter (\<lambda>i. xs ! i \<noteq> None) [0 ..< length xs]"
    by (rule filter_cong) (auto simp: nth_append)
  have b: "\<And>x. map (\<lambda>i. f (the ((xs @ [x]) ! i))) (filter (\<lambda>i. xs ! i \<noteq> None) [0 ..< length xs])
           = map (\<lambda>i. f (the (xs ! i))) (filter (\<lambda>i. xs ! i \<noteq> None) [0 ..< length xs])"
    by (rule map_cong) (auto simp: nth_append)
  show ?case
    using snoc.IH by (cases x) (simp_all add: a b del: not_None_eq)
qed

lemma hashes_of_children:
  "concat (map (\<lambda>node. case node of None \<Rightarrow> [] | Some n \<Rightarrow> [hashOrSelf n]) (map (map_option Inl) chn))
   = map (\<lambda>i. hash (the (chn ! i))) (filter (\<lambda>i. chn ! i \<noteq> None) [0 ..< length chn])"
proof -
  have "concat (map (\<lambda>node. case node of None \<Rightarrow> [] | Some n \<Rightarrow> [hashOrSelf n]) (map (map_option Inl) chn))
        = concat (map (\<lambda>x. case x of None \<Rightarrow> [] | Some y \<Rightarrow> [hash y]) chn)"
    by (induction chn) (auto simp: hashOrSelf_def split: option.splits)
  then show ?thesis by (simp only: present_by_index)
qed

lemma nibbles_length: "length (nibbles pre) = (length pre + 1) div 2"
  by (induction pre rule: nibbles.induct) simp_all

lemma nibbles_pair:
  "2 * i + 1 < length pre \<Longrightarrow>
   nibbles pre ! i = of_nat (16 * nibbleValue (pre ! (2 * i)) + nibbleValue (pre ! (2 * i + 1)))"
proof (induction pre arbitrary: i rule: nibbles.induct)
  case 1
  then show ?case by simp
next
  case (2 h)
  then show ?case by simp
next
  case (3 h l rest)
  show ?case
  proof (cases i)
    case 0
    then show ?thesis by simp
  next
    case (Suc j)
    with "3.prems" have "2 * j + 1 < length rest" by simp
    from "3.IH" [OF this] Suc show ?thesis by simp
  qed
qed

lemma nibbles_odd:
  "odd (length pre) \<Longrightarrow>
   nibbles pre ! (length pre div 2) = of_nat (16 * nibbleValue (last pre))"
  by (induction pre rule: nibbles.induct) auto

text \<open>
  C5. The hash of a BranchNode is the digest of \<open>nibbles prefix\<close> followed by the hashes of
  the children that are present, in ascending order of their slots 0 to 15. \<open>nibbles\<close>
  makes one byte of each pair of nibbles, the first in the high half, and puts an odd last
  nibble into the high half of a last byte whose low half is zero.
\<close>

theorem branch_hash_is_digest_of_prefix_and_children:
  assumes "BranchNode_new dg pre chn = Inr b"
  shows "hash b = dg (nibbles pre @ concat (map (\<lambda>i. hash (the (chn ! i)))
                                         (filter (\<lambda>i. chn ! i \<noteq> None) [0 ..< 16])))
     \<and> length (nibbles pre) = (length pre + 1) div 2
     \<and> (\<forall>i. 2 * i + 1 < length pre \<longrightarrow>
           nibbles pre ! i = of_nat (16 * nibbleValue (pre ! (2 * i)) + nibbleValue (pre ! (2 * i + 1))))
     \<and> (odd (length pre) \<longrightarrow> nibbles pre ! (length pre div 2) = of_nat (16 * nibbleValue (last pre)))"
proof -
  from assms have len: "length chn = 16"
    and b: "b = BranchNode (fst (BranchNode_setPrefix dg (map (map_option Inl) chn) pre))
                  (foldl (\<lambda>sz child. sz + (case child of None \<Rightarrow> 0 | Some t \<Rightarrow> size_t t)) 0 chn)
                  (snd (BranchNode_setPrefix dg (map (map_option Inl) chn) pre)) chn"
    by (auto simp: BranchNode_new_def split: if_splits prod.splits)
  have "hash b = dg (nibbles pre @ concat (map (\<lambda>i. hash (the (chn ! i)))
                                         (filter (\<lambda>i. chn ! i \<noteq> None) [0 ..< 16])))"
    unfolding b BranchNode_setPrefix_def Let_def
    by (simp only: tree.sel fst_conv hashes_of_children len)
  then show ?thesis
    using nibbles_length nibbles_pair nibbles_odd by blast
qed

theorem branch_hash_is_digest_of_prefix_and_children_witness:
  "BranchNode_new blake2b_tab ''f'' (children (the (children tree_apple_cherry_fig ! 8)))
     = Inr (the (children tree_apple_cherry_fig ! 8))
   \<and> hash (the (children tree_apple_cherry_fig ! 8))
       = blake2b_tab ([0xf0] @ digest_cherry @ digest_fig)
   \<and> nibbles ''f'' = [0xf0]
   \<and> BranchNode_new blake2b_tab ''8f'' (children tree_cherry_fig) = Inr tree_cherry_fig
   \<and> hash tree_cherry_fig = blake2b_tab ([0x8f] @ digest_cherry @ digest_fig)
   \<and> nibbles ''8f'' = [0x8f]"
proof -
  have a: "BranchNode_new blake2b_tab ''f'' (children (the (children tree_apple_cherry_fig ! 8)))
     = Inr (the (children tree_apple_cherry_fig ! 8))"
    by code_simp
  have b: "BranchNode_new blake2b_tab ''8f'' (children tree_cherry_fig) = Inr tree_cherry_fig"
    by code_simp
  have c: "nibbles ''f'' @ concat (map (\<lambda>i. hash (the (children (the (children tree_apple_cherry_fig ! 8)) ! i)))
             (filter (\<lambda>i. children (the (children tree_apple_cherry_fig ! 8)) ! i \<noteq> None) [0 ..< 16]))
           = [0xf0] @ digest_cherry @ digest_fig"
    by code_simp
  have d: "nibbles ''8f'' @ concat (map (\<lambda>i. hash (the (children tree_cherry_fig ! i)))
             (filter (\<lambda>i. children tree_cherry_fig ! i \<noteq> None) [0 ..< 16]))
           = [0x8f] @ digest_cherry @ digest_fig"
    by code_simp
  have e: "nibbles ''f'' = [0xf0]" "nibbles ''8f'' = [0x8f]"
    by code_simp+
  from branch_hash_is_digest_of_prefix_and_children [OF a] c
  have "hash (the (children tree_apple_cherry_fig ! 8)) = blake2b_tab ([0xf0] @ digest_cherry @ digest_fig)"
    by (simp only:)
  moreover from branch_hash_is_digest_of_prefix_and_children [OF b] d
  have "hash tree_cherry_fig = blake2b_tab ([0x8f] @ digest_cherry @ digest_fig)"
    by (simp only:)
  ultimately show ?thesis using a b e by blast
qed

section \<open>Tree.fromList is a function of the values, not of their order\<close>

lemma prefix_commonPrefix:
  "ws \<noteq> [] \<Longrightarrow> prefix q (commonPrefix ws) \<longleftrightarrow> (\<forall>w \<in> set ws. prefix q w)"
proof (induction ws rule: commonPrefix.induct)
  case 1
  then show ?case by simp
next
  case (2 w)
  show ?case by simp
next
  case (3 w v vs)
  have "prefix q (longest_common_prefix w (commonPrefix (v # vs)))
        \<longleftrightarrow> prefix q w \<and> prefix q (commonPrefix (v # vs))"
    by (meson longest_common_prefix_max_prefix longest_common_prefix_prefix1
        longest_common_prefix_prefix2 prefix_order.trans)
  with "3.IH" show ?case by simp
qed

lemma commonPrefix_set:
  assumes "set ws = set ws'" and "ws \<noteq> []"
  shows "commonPrefix ws = commonPrefix ws'"
proof -
  from assms have ne: "ws' \<noteq> []" by auto
  have "prefix q (commonPrefix ws) \<longleftrightarrow> prefix q (commonPrefix ws')" for q
    using assms ne by (simp add: prefix_commonPrefix)
  then have "prefix (commonPrefix ws) (commonPrefix ws')" "prefix (commonPrefix ws') (commonPrefix ws)"
    by blast+
  then show ?thesis by (rule prefix_order.antisym)
qed

lemma bucket_eq:
  "bucket digit kvs =
     (if \<exists>kv \<in> set kvs. fst kv = [] then Inl (AssertionError ''empty key for node [object Object]'')
      else Inr (map (\<lambda>kv. (tl (fst kv), snd kv)) (filter (\<lambda>kv. hd (fst kv) = digit) kvs)))"
proof (induction kvs)
  case Nil
  show ?case by simp
next
  case (Cons kv kvs)
  obtain k v where kv: "kv = (k, v)" by (cases kv)
  show ?case
  proof (cases "k = []")
    case True
    with kv show ?thesis by simp
  next
    case False
    with kv Cons.IH show ?thesis by simp
  qed
qed

lemma bucket_mset:
  assumes "mset kvs = mset kvs'"
  shows "(case bucket digit kvs of Inl e \<Rightarrow> bucket digit kvs' = Inl e
          | Inr acc \<Rightarrow> (\<exists>acc'. bucket digit kvs' = Inr acc' \<and> mset acc = mset acc'))"
proof -
  from assms have s: "set kvs = set kvs'" by (rule mset_eq_setD)
  from assms have "mset (filter (\<lambda>kv. hd (fst kv) = digit) kvs) = mset (filter (\<lambda>kv. hd (fst kv) = digit) kvs')"
    by (simp only: mset_filter)
  then have "mset (map (\<lambda>kv. (tl (fst kv), snd kv)) (filter (\<lambda>kv. hd (fst kv) = digit) kvs))
        = mset (map (\<lambda>kv. (tl (fst kv), snd kv)) (filter (\<lambda>kv. hd (fst kv) = digit) kvs'))"
    by (simp only: mset_map)
  with s show ?thesis by (simp add: bucket_eq)
qed

lemma loop_mset:
  "mset kvs = mset kvs' \<Longrightarrow> loop dg branch kvs = loop dg branch' kvs'"
proof (induction dg branch kvs arbitrary: branch' kvs' rule: loop.induct)
  case (1 dg branch keyValues)
  from "1.prems" have len: "length keyValues = length kvs'"
    by (rule mset_eq_length)
  from "1.prems" have st: "set keyValues = set kvs'"
    by (rule mset_eq_setD)
  show ?case
  proof (cases "length keyValues = 0")
    case True
    with len have "loop dg branch keyValues = Inr Tree_new" "loop dg branch' kvs' = Inr Tree_new"
      by (simp_all add: loop.simps [of dg _ "[]"])
    then show ?thesis by simp
  next
    case ne: False
    define pre where "pre = commonPrefix (map fst keyValues)"
    have pre': "commonPrefix (map fst kvs') = pre"
      unfolding pre_def using st ne by (intro commonPrefix_set [symmetric]) auto
    show ?thesis
    proof (cases "length keyValues = 1")
      case True
      then obtain kv where kv: "keyValues = [kv]" by (cases keyValues) auto
      with "1.prems" have "kvs' = [kv]" by simp
      with kv show ?thesis
        by (simp add: loop.simps [of dg _ "[kv]"])
    next
      case n1: False
      define stripped where "stripped = map (\<lambda>kv. (drop (length pre) (fst kv), snd kv)) keyValues"
      define stripped' where "stripped' = map (\<lambda>kv. (drop (length pre) (fst kv), snd kv)) kvs'"
      have ms: "mset stripped = mset stripped'"
        unfolding stripped_def stripped'_def using "1.prems" by (simp only: mset_map)
      have body: "(case bucket digit stripped of Inl e \<Rightarrow> Inl e | Inr acc \<Rightarrow> loop dg [digit] acc)
                = (case bucket digit stripped' of Inl e \<Rightarrow> Inl e | Inr acc \<Rightarrow> loop dg [digit] acc)"
        if d: "digit \<in> set digits" for digit
      proof (cases "bucket digit stripped")
        case (Inl e)
        with bucket_mset [OF ms, of digit] show ?thesis by simp
      next
        case (Inr acc)
        with bucket_mset [OF ms, of digit] obtain acc' where
          acc': "bucket digit stripped' = Inr acc'" "mset acc = mset acc'" by auto
        from "1.IH" [OF ne pre_def n1 stripped_def d Inr acc'(2)]
        have "loop dg [digit] acc = loop dg [digit] acc'" .
        with Inr acc' show ?thesis by simp
      qed
      have maps: "map (\<lambda>digit. case bucket digit stripped of Inl e \<Rightarrow> Inl e | Inr acc \<Rightarrow> loop dg [digit] acc) digits
                = map (\<lambda>digit. case bucket digit stripped' of Inl e \<Rightarrow> Inl e | Inr acc \<Rightarrow> loop dg [digit] acc) digits"
        by (rule map_cong) (simp_all add: body)
      have l: "loop dg branch keyValues =
          (case sequence (map (\<lambda>digit. case bucket digit stripped of Inl e \<Rightarrow> Inl e | Inr acc \<Rightarrow> loop dg [digit] acc) digits) of
             Inl e \<Rightarrow> Inl e
           | Inr trees \<Rightarrow> BranchNode_new dg pre (map (\<lambda>t. if isEmpty t then None else Some t) trees))"
        unfolding pre_def stripped_def using ne n1
        by (simp add: loop.simps [of dg branch keyValues] Let_def)
      have r: "loop dg branch' kvs' =
          (case sequence (map (\<lambda>digit. case bucket digit stripped' of Inl e \<Rightarrow> Inl e | Inr acc \<Rightarrow> loop dg [digit] acc) digits) of
             Inl e \<Rightarrow> Inl e
           | Inr trees \<Rightarrow> BranchNode_new dg pre (map (\<lambda>t. if isEmpty t then None else Some t) trees))"
        unfolding pre' [symmetric] stripped'_def using ne n1 len
        by (simp add: loop.simps [of dg branch' kvs'] Let_def)
      show ?thesis unfolding l r maps ..
    qed
  qed
qed

text \<open>
  C3. Two lists with the same values, in any order, build the same tree (or fail with the
  same error), and so the same root hash.
\<close>

theorem fromList_permutation:
  assumes "mset vals = mset vals'"
  shows "fromList dg vals = fromList dg vals'
    \<and> map_sum id hash (fromList dg vals) = map_sum id hash (fromList dg vals')"
proof -
  from assms have "mset (map (\<lambda>val. (intoKey dg val, val)) vals) = mset (map (\<lambda>val. (intoKey dg val, val)) vals')"
    by (simp only: mset_map)
  then have "fromList dg vals = fromList dg vals'"
    unfolding fromList_def by (rule loop_mset)
  then show ?thesis by simp
qed

theorem fromList_permutation_witness:
  "mset [apple, banana] = mset [banana, apple]
   \<and> fromList blake2b_tab [apple, banana] = Inr tree_apple_banana
   \<and> fromList blake2b_tab [banana, apple] = Inr tree_apple_banana
   \<and> map_sum id hash (fromList blake2b_tab [banana, apple]) = Inr digest_apple_banana"
proof -
  have m: "mset [apple, banana] = mset [banana, apple]" by (simp add: add_mset_commute)
  have a: "fromList blake2b_tab [apple, banana] = Inr tree_apple_banana" by code_simp
  have h: "hash tree_apple_banana = digest_apple_banana" by code_simp
  from fromList_permutation [OF m, of blake2b_tab] a h show ?thesis using m by simp
qed

section \<open>The trees built by Tree.fromList\<close>

text \<open>
  What a successful call of \<^verbatim>\<open>loop\<close> on two key-values or more returns: a BranchNode
  over the 16 results of the recursive calls, one for each digit. Every BranchNode of a
  built tree has 16 slots.
\<close>

lemma sequence_Inr: "sequence rs = Inr xs \<longleftrightarrow> rs = map Inr xs"
proof (induction rs arbitrary: xs)
  case Nil
  show ?case by auto
next
  case (Cons r rs)
  show ?case
  proof (cases r)
    case (Inl e)
    then show ?thesis by auto
  next
    case r: (Inr x)
    show ?thesis
    proof (cases "sequence rs")
      case (Inl e)
      with Cons.IH have "rs \<noteq> map Inr zs" for zs by (metis sum.distinct(1))
      with Inl r show ?thesis by (cases xs) auto
    next
      case (Inr zs)
      with Cons.IH [of zs] have "rs = map Inr zs" by simp
      with Inr r show ?thesis by (cases xs) auto
    qed
  qed
qed

lemma BranchNode_new_Inr:
  assumes "BranchNode_new dg pre chn = Inr t"
  shows "\<exists>h s. t = BranchNode h s pre chn" and "length chn = 16"
    and "firstEmpty 0 chn = None"
  using assms
  by (auto simp: BranchNode_new_def BranchNode_setPrefix_def Let_def split: if_splits)

lemma loop_branch:
  assumes t: "loop dg branch kvs = Inr t" and ne: "length kvs \<noteq> 0" and n1: "length kvs \<noteq> 1"
  shows "\<exists>trees. length trees = 16
      \<and> (\<forall>i < 16. \<exists>acc. bucket (digits ! i)
                          (map (\<lambda>kv. (drop (length (commonPrefix (map fst kvs))) (fst kv), snd kv)) kvs) = Inr acc
                    \<and> loop dg [digits ! i] acc = Inr (trees ! i))
      \<and> BranchNode_new dg (commonPrefix (map fst kvs))
            (map (\<lambda>t. if isEmpty t then None else Some t) trees) = Inr t"
proof -
  define stripped where "stripped = map (\<lambda>kv. (drop (length (commonPrefix (map fst kvs))) (fst kv), snd kv)) kvs"
  define rs where "rs = map (\<lambda>digit. case bucket digit stripped of Inl e \<Rightarrow> Inl e | Inr acc \<Rightarrow> loop dg [digit] acc) digits"
  have l: "loop dg branch kvs =
      (case sequence rs of
         Inl e \<Rightarrow> Inl e
       | Inr trees \<Rightarrow> BranchNode_new dg (commonPrefix (map fst kvs)) (map (\<lambda>t. if isEmpty t then None else Some t) trees))"
    unfolding rs_def stripped_def using ne n1
    by (simp add: loop.simps [of dg branch kvs] Let_def)
  with t obtain trees where seq: "sequence rs = Inr trees"
    and b: "BranchNode_new dg (commonPrefix (map fst kvs)) (map (\<lambda>t. if isEmpty t then None else Some t) trees) = Inr t"
    by (auto split: sum.splits)
  from seq have rs: "rs = map Inr trees" by (simp add: sequence_Inr)
  have "length rs = 16" unfolding rs_def digits_def by simp
  with rs have len: "length trees = 16" by simp
  have "\<exists>acc. bucket (digits ! i) stripped = Inr acc \<and> loop dg [digits ! i] acc = Inr (trees ! i)" if i: "i < 16" for i
  proof -
    from i have li: "i < length digits" by (simp add: digits_def)
    from rs have "rs ! i = Inr (trees ! i)" using i len by simp
    with li have "(case bucket (digits ! i) stripped of Inl e \<Rightarrow> Inl e | Inr acc \<Rightarrow> loop dg [digits ! i] acc) = Inr (trees ! i)"
      unfolding rs_def by simp
    then show ?thesis by (auto split: sum.splits)
  qed
  with len b show ?thesis unfolding stripped_def by blast
qed

lemma loop_sixteenSlots:
  "loop dg branch kvs = Inr t \<Longrightarrow> sixteenSlots t"
proof (induction dg branch kvs arbitrary: t rule: loop.induct)
  case (1 dg branch keyValues)
  show ?case
  proof (cases "length keyValues = 0")
    case True
    with "1.prems" show ?thesis
      by (auto simp: loop.simps [of dg branch keyValues] Tree_new_def)
  next
    case ne: False
    show ?thesis
    proof (cases "length keyValues = 1")
      case True
      with "1.prems" ne show ?thesis
        by (auto simp: loop.simps [of dg branch keyValues] Leaf_new_def Leaf_setPrefix_def Let_def)
    next
      case n1: False
      from loop_branch [OF "1.prems" ne n1] obtain trees where
        len: "length trees = 16"
        and sub: "\<And>i. i < 16 \<Longrightarrow> \<exists>acc. bucket (digits ! i)
                          (map (\<lambda>kv. (drop (length (commonPrefix (map fst keyValues))) (fst kv), snd kv)) keyValues) = Inr acc
                    \<and> loop dg [digits ! i] acc = Inr (trees ! i)"
        and b: "BranchNode_new dg (commonPrefix (map fst keyValues))
            (map (\<lambda>t. if isEmpty t then None else Some t) trees) = Inr t"
        by blast
      have "sixteenSlots x" if x: "x \<in> set trees" for x
      proof -
        from x len obtain i where i: "i < 16" "trees ! i = x"
          by (metis in_set_conv_nth)
        from sub [OF i(1)] i(2) obtain acc where
          acc: "bucket (digits ! i) (map (\<lambda>kv. (drop (length (commonPrefix (map fst keyValues))) (fst kv), snd kv)) keyValues) = Inr acc"
          and lx: "loop dg [digits ! i] acc = Inr x" by auto
        from i(1) have d: "digits ! i \<in> set digits" by (intro nth_mem) (simp add: digits_def)
        from "1.IH" [OF ne refl n1 refl d acc lx] show ?thesis .
      qed
      then have "list_all (\<lambda>node. case node of None \<Rightarrow> True | Some t \<Rightarrow> sixteenSlots t)
                   (map (\<lambda>t. if isEmpty t then None else Some t) trees)"
        by (auto simp: list_all_iff)
      with BranchNode_new_Inr(1,2) [OF b] show ?thesis by auto
    qed
  qed
qed

text \<open>
  The neighbors that \<^verbatim>\<open>rewind\<close> records for a child in slot \<open>b\<close>: the hashes of the other
  slots in ascending order, when no other child has the hash of the child; fewer entries
  than slots in any case.
\<close>

lemma set_present: "set (present xs) = {x. Some x \<in> set xs}"
  by (induction xs) (auto simp: present_def split: option.splits)

lemma rewind_neighbors_others:
  "\<forall>c \<in> set (present chn). hash c \<noteq> hash target \<Longrightarrow>
   rewind_neighbors target chn = map (map_option hash) chn"
proof (induction chn)
  case Nil
  show ?case by (simp add: rewind_neighbors_def)
next
  case (Cons x chn)
  from Cons.prems have "\<forall>c \<in> set (present chn). hash c \<noteq> hash target"
    by (auto simp: set_present)
  from Cons.IH [OF this] have ih: "rewind_neighbors target chn = map (map_option hash) chn" .
  show ?case
  proof (cases x)
    case None
    with ih show ?thesis by (simp add: rewind_neighbors_def)
  next
    case (Some c)
    with Cons.prems have "hash c \<noteq> hash target" by (simp add: set_present)
    with ih Some show ?thesis by (simp add: rewind_neighbors_def)
  qed
qed

lemma rewind_neighbors_distinct:
  "b < length chn \<Longrightarrow> chn ! b = Some target \<Longrightarrow> distinct (map hash (present chn)) \<Longrightarrow>
   rewind_neighbors target chn = map (map_option hash) (take b chn @ drop (Suc b) chn)"
proof (induction chn arbitrary: b)
  case Nil
  then show ?case by simp
next
  case (Cons x chn)
  show ?case
  proof (cases b)
    case 0
    with Cons.prems have x: "x = Some target" by simp
    with Cons.prems have "hash target \<notin> set (map hash (present chn))"
      by (simp add: present_def)
    then have "\<forall>c \<in> set (present chn). hash c \<noteq> hash target"
      by (metis imageI list.set_map)
    from rewind_neighbors_others [OF this] x 0 show ?thesis
      by (simp add: rewind_neighbors_def)
  next
    case (Suc b')
    with Cons.prems have b': "b' < length chn" "chn ! b' = Some target" by simp_all
    then have mem: "target \<in> set (present chn)"
      by (metis (mono_tags, lifting) mem_Collect_eq nth_mem set_present)
    from Cons.prems have d: "distinct (map hash (present chn))"
      by (cases x) (simp_all add: present_def)
    from Cons.IH [OF b' d] have ih: "rewind_neighbors target chn = map (map_option hash) (take b' chn @ drop (Suc b') chn)" .
    show ?thesis
    proof (cases x)
      case None
      with ih Suc show ?thesis by (simp add: rewind_neighbors_def)
    next
      case (Some c)
      with Cons.prems have "hash c \<notin> set (map hash (present chn))"
        by (simp add: present_def)
      with mem have "hash c \<noteq> hash target"
        by (metis imageI list.set_map)
      with ih Suc Some show ?thesis by (simp add: rewind_neighbors_def)
    qed
  qed
qed

lemma rewind_neighbors_length:
  "b < length chn \<Longrightarrow> chn ! b = Some target \<Longrightarrow> length (rewind_neighbors target chn) < length chn"
proof (induction chn arbitrary: b)
  case Nil
  then show ?case by simp
next
  case (Cons x chn)
  have le: "length (rewind_neighbors target ys) \<le> length ys" for ys
    by (induction ys) (auto simp: rewind_neighbors_def split: option.splits)
  show ?case
  proof (cases b)
    case 0
    with Cons.prems le [of chn] show ?thesis by (simp add: rewind_neighbors_def)
  next
    case (Suc b')
    with Cons.prems Cons.IH [of b'] show ?thesis
      by (cases x) (auto simp: rewind_neighbors_def)
  qed
qed

lemma at_Some: "at chn i = Some c \<Longrightarrow> \<exists>b. i = Some b \<and> b < length chn \<and> chn ! b = Some c"
  by (auto simp: at_def split: option.splits if_splits)

lemma walk_steps:
  "walk t path = Inr pr \<Longrightarrow> sixteenSlots t \<Longrightarrow>
   list_all (\<lambda>step. length (neighbors step) \<le> 15) (steps pr)
   \<and> (distinctSiblingHashes t \<longrightarrow> list_all (\<lambda>step. length (neighbors step) = 15) (steps pr))"
proof (induction t path arbitrary: pr rule: walk.induct)
  case (1 h s p path)
  then show ?case by simp
next
  case (2 h s p v path)
  then show ?case by (auto simp: Proof_new_def split: if_splits)
next
  case (3 h s p chn path)
  from "3.prems"(1) have sw: "\<not> \<not> startsWith path p" by (auto split: if_splits)
  from "3.prems"(1) sw obtain child pr' where
    child: "at chn (parseIntAt (drop (length p) path) 0) = Some child"
    and w: "walk child (drop 1 (drop (length p) path)) = Inr pr'"
    and pr: "pr = rewind pr' child (length p) chn"
    by (auto simp: Let_def split: option.splits sum.splits)
  from at_Some [OF child] obtain b where b: "b < length chn" "chn ! b = Some child"
    by blast
  from "3.prems"(2) have len: "length chn = 16"
    and all: "list_all (\<lambda>node. case node of None \<Rightarrow> True | Some t \<Rightarrow> sixteenSlots t) chn" by simp_all
  from b have cm: "Some child \<in> set chn" by (metis nth_mem)
  with all have sc: "sixteenSlots child" by (auto simp: list_all_iff)
  from "3.IH" [OF sw refl refl refl child w sc]
  have ih: "list_all (\<lambda>step. length (neighbors step) \<le> 15) (steps pr')"
    "distinctSiblingHashes child \<Longrightarrow> list_all (\<lambda>step. length (neighbors step) = 15) (steps pr')"
    by simp_all
  have st: "steps pr = \<lparr>skip = length p, neighbors = rewind_neighbors child chn\<rparr> # steps pr'"
    unfolding pr by (simp add: rewind_def)
  from rewind_neighbors_length [OF b] len have l15: "length (rewind_neighbors child chn) \<le> 15" by simp
  have "list_all (\<lambda>step. length (neighbors step) = 15) (steps pr)" if d: "distinctSiblingHashes (BranchNode h s p chn)"
  proof -
    from d have dc: "distinct (map hash (present chn))"
      and "list_all (\<lambda>node. case node of None \<Rightarrow> True | Some t \<Rightarrow> distinctSiblingHashes t) chn" by simp_all
    with cm have "distinctSiblingHashes child" by (auto simp: list_all_iff)
    from ih(2) [OF this] rewind_neighbors_distinct [OF b dc] len b(1) show ?thesis
      unfolding st by simp
  qed
  with ih(1) l15 show ?case unfolding st by simp
qed

section \<open>Proof.serialise\<close>

text \<open>
  The entry of \<^verbatim>\<open>lookup\<close> at an index is the number of neighbors present before it.
\<close>

lemma lookup_length: "length (lookup n xs) = length xs"
  by (induction xs arbitrary: n) simp_all

lemma lookup_nth:
  "i < length xs \<Longrightarrow> lookup n xs ! i = n + length (filter (\<lambda>x. x \<noteq> None) (take i xs))"
proof (induction xs arbitrary: n i)
  case Nil
  then show ?case by simp
next
  case (Cons x xs)
  show ?case
  proof (cases i)
    case 0
    then show ?thesis by simp
  next
    case (Suc j)
    with Cons.prems have "j < length xs" by simp
    from Cons.IH [OF this] Suc show ?thesis by (simp del: not_None_eq)
  qed
qed

lemma fromList_sixteenSlots: "fromList dg vals = Inr t \<Longrightarrow> sixteenSlots t"
  unfolding fromList_def by (rule loop_sixteenSlots)

text \<open>
  C7. The claim: the \<^verbatim>\<open>lookup\<close> of every serialised step has 16 bytes, one for each
  branch slot. For the proof of \<^verbatim>\<open>"apple"\<close> in the tree of \<^verbatim>\<open>"apple"\<close> and \<^verbatim>\<open>"banana"\<close>
  it has 15 bytes, one for each neighbor: the slot of the proven child has no entry.
\<close>

theorem serialise_lookup_counterexample:
  "fromList blake2b_tab [apple, banana] = Inr tree_apple_banana
   \<and> prove blake2b_tab tree_apple_banana apple = Inr proof_apple_2
   \<and> length (serialise proof_apple_2) = 1
   \<and> s_lookup (hd (serialise proof_apple_2)) = ''000000000001010101010101010101''
   \<and> s_lookup (hd (serialise proof_apple_2)) = toHex (Buffer_from (lookup 0 (neighbors (hd (steps proof_apple_2)))))
   \<and> length (Buffer_from (lookup 0 (neighbors (hd (steps proof_apple_2))))) = 15
   \<and> length (Buffer_from (lookup 0 (neighbors (hd (steps proof_apple_2))))) \<noteq> 16"
  by code_simp

text \<open>
  C7, amended. For every proof that \<^verbatim>\<open>prove\<close> returns on a built tree, the \<^verbatim>\<open>lookup\<close>
  of each serialised step is the hex rendering of a byte string with one byte for each
  entry of the step's \<^verbatim>\<open>neighbors\<close>: at most 15 bytes, and exactly 15 (the branch slots
  other than the proven child's) when no two children of a branch share a hash. The byte
  at an index is the number of present neighbors before that index (modulo 256), which is
  the index among the concatenated neighbor hashes of the next present slot.
\<close>

theorem serialise_lookup:
  assumes "fromList dg vals = Inr t" and "prove dg t v = Inr pr"
  shows "map s_lookup (serialise pr)
           = map (\<lambda>step. toHex (Buffer_from (lookup 0 (neighbors step)))) (steps pr)
     \<and> list_all (\<lambda>step.
          length (Buffer_from (lookup 0 (neighbors step))) = length (neighbors step)
          \<and> length (neighbors step) \<le> 15
          \<and> (distinctSiblingHashes t \<longrightarrow> length (Buffer_from (lookup 0 (neighbors step))) = 15)
          \<and> (\<forall>j < length (neighbors step).
                Buffer_from (lookup 0 (neighbors step)) ! j
                  = of_nat (length (filter (\<lambda>x. x \<noteq> None) (take j (neighbors step))))))
        (steps pr)"
proof -
  from assms(2) have w: "walk t (intoKey dg v) = Inr pr" by (simp add: prove_def)
  from walk_steps [OF w fromList_sixteenSlots [OF assms(1)]]
  have le: "list_all (\<lambda>step. length (neighbors step) \<le> 15) (steps pr)"
    and eq: "distinctSiblingHashes t \<Longrightarrow> list_all (\<lambda>step. length (neighbors step) = 15) (steps pr)"
    by simp_all
  have a: "map s_lookup (serialise pr)
           = map (\<lambda>step. toHex (Buffer_from (lookup 0 (neighbors step)))) (steps pr)"
    by (simp add: serialise_def)
  have b: "length (Buffer_from (lookup 0 ns)) = length ns" for ns
    by (simp add: Buffer_from_def lookup_length)
  have c: "Buffer_from (lookup 0 ns) ! j = of_nat (length (filter (\<lambda>x. x \<noteq> None) (take j ns)))"
    if "j < length ns" for ns j
    using that by (simp add: Buffer_from_def lookup_length lookup_nth del: not_None_eq)
  from le eq show ?thesis
    unfolding a by (auto simp: list_all_iff b c simp del: not_None_eq)
qed

theorem serialise_lookup_witness:
  "fromList blake2b_tab [cherry, fig] = Inr tree_cherry_fig
   \<and> prove blake2b_tab tree_cherry_fig cherry = Inr proof_cherry
   \<and> distinctSiblingHashes tree_cherry_fig
   \<and> map s_lookup (serialise proof_cherry) = [''000000000000000101010101010101'']
   \<and> length (Buffer_from (lookup 0 (neighbors (hd (steps proof_cherry))))) = 15
   \<and> Buffer_from (lookup 0 (neighbors (hd (steps proof_cherry)))) ! 7 = 1"
proof -
  have a: "fromList blake2b_tab [cherry, fig] = Inr tree_cherry_fig" by code_simp
  have b: "prove blake2b_tab tree_cherry_fig cherry = Inr proof_cherry" by code_simp
  have d: "distinctSiblingHashes tree_cherry_fig" by code_simp
  have s: "steps proof_cherry = [hd (steps proof_cherry)]" by code_simp
  have n: "length (neighbors (hd (steps proof_cherry))) = 15" by code_simp
  have f: "length (filter (\<lambda>x. x \<noteq> None) (take 7 (neighbors (hd (steps proof_cherry))))) = 1" by code_simp
  have h: "[toHex (Buffer_from (lookup 0 (neighbors (hd (steps proof_cherry)))))] = [''000000000000000101010101010101'']"
    by code_simp
  from serialise_lookup [OF a b] have
    "map s_lookup (serialise proof_cherry)
       = map (\<lambda>step. toHex (Buffer_from (lookup 0 (neighbors step)))) [hd (steps proof_cherry)]"
    and "list_all (\<lambda>step.
          length (Buffer_from (lookup 0 (neighbors step))) = length (neighbors step)
          \<and> length (neighbors step) \<le> 15
          \<and> (distinctSiblingHashes tree_cherry_fig \<longrightarrow> length (Buffer_from (lookup 0 (neighbors step))) = 15)
          \<and> (\<forall>j < length (neighbors step).
                Buffer_from (lookup 0 (neighbors step)) ! j
                  = of_nat (length (filter (\<lambda>x. x \<noteq> None) (take j (neighbors step))))))
        [hd (steps proof_cherry)]"
    using s by metis+
  then have "map s_lookup (serialise proof_cherry) = [''000000000000000101010101010101'']"
    and "length (Buffer_from (lookup 0 (neighbors (hd (steps proof_cherry))))) = 15"
    and "Buffer_from (lookup 0 (neighbors (hd (steps proof_cherry)))) ! 7 = 1"
    using d n f h by (simp_all del: not_None_eq)
  with a b d show ?thesis by blast
qed

section \<open>Tree.prove on a value that is not in the tree\<close>

text \<open>
  A key is a string of lowercase hex digits that determines the digest. When \<^verbatim>\<open>walk\<close>
  returns a proof on a built tree, the key of one of the values is a prefix of the path
  walked, and the proof carries that value. When it throws, the message names a suffix of
  the path; it is the Error of the empty tree on the empty tree only.
\<close>

lemma startsWith_prefix: "startsWith path p \<longleftrightarrow> prefix p path"
  unfolding startsWith_def
  by (metis append_eq_conv_conj prefix_def)

lemma toHex_digits: "set (toHex buf) \<subseteq> set digits"
proof (induction buf)
  case Nil
  show ?case by (simp add: toHex_def)
next
  case (Cons b buf)
  have "unat b < 256" using unsigned_less [of b] by simp
  then have "unat b div 16 < length digits" "unat b mod 16 < length digits"
    by (simp_all add: digits_def) 
  then have "digits ! (unat b div 16) \<in> set digits" "digits ! (unat b mod 16) \<in> set digits"
    by (simp_all only: nth_mem)
  with Cons.IH show ?case by (simp add: toHex_def)
qed

lemma toHex_length: "length (toHex buf) = 2 * length buf"
  by (induction buf) (simp_all add: toHex_def)

lemma distinct_digits: "distinct digits"
  by (simp add: digits_def)

lemma toHex_inj: "toHex a = toHex b \<Longrightarrow> a = b"
proof (induction a arbitrary: b)
  case Nil
  then show ?case by (cases b) (simp_all add: toHex_def)
next
  case (Cons x a)
  from Cons.prems obtain y b' where b: "b = y # b'"
    by (cases b) (simp_all add: toHex_def)
  from Cons.prems b have hi: "digits ! (unat x div 16) = digits ! (unat y div 16)"
    and lo: "digits ! (unat x mod 16) = digits ! (unat y mod 16)"
    and rest: "toHex a = toHex b'"
    by (simp_all add: toHex_def)
  have "unat x < 256" "unat y < 256"
    using unsigned_less [of x] unsigned_less [of y] by simp_all
  then have l: "unat x div 16 < length digits" "unat y div 16 < length digits"
    "unat x mod 16 < length digits" "unat y mod 16 < length digits"
    by (simp_all add: digits_def)
  from hi lo l have "unat x div 16 = unat y div 16" "unat x mod 16 = unat y mod 16"
    using distinct_digits by (simp_all add: nth_eq_iff_index_eq)
  then have "unat x = unat y" by (metis div_mult_mod_eq)
  then have "x = y" by (simp add: word_unat_eq_iff)
  with Cons.IH [OF rest] b show ?case by simp
qed

lemma parseInt16_digits:
  assumes "c \<in> set digits" and "parseInt16 c = Some i"
  shows "c = digits ! i"
  using assms by (auto simp: digits_def parseInt16_def upt_rec)

lemma commonPrefix_prefix:
  assumes "w \<in> set ws"
  shows "prefix (commonPrefix ws) w"
proof -
  from assms have "ws \<noteq> []" by auto
  from prefix_commonPrefix [OF this, of "commonPrefix ws"] assms show ?thesis by simp
qed

lemma bucket_member:
  assumes "bucket digit kvs = Inr acc" and "kv' \<in> set acc"
  shows "\<exists>kv \<in> set kvs. fst kv \<noteq> [] \<and> hd (fst kv) = digit \<and> kv' = (tl (fst kv), snd kv)"
proof -
  from assms(1) have ne: "\<forall>kv \<in> set kvs. fst kv \<noteq> []"
    and acc: "acc = map (\<lambda>kv. (tl (fst kv), snd kv)) (filter (\<lambda>kv. hd (fst kv) = digit) kvs)"
    by (auto simp: bucket_eq split: if_splits)
  with assms(2) show ?thesis by auto
qed

lemma Leaf_new_eq: "Leaf_new dg pre val = Leaf (dg val) 1 pre val"
  by (simp add: Leaf_new_def Leaf_setPrefix_def)

lemma walk_BranchNode_Inr:
  assumes "walk (BranchNode h s p chn) path = Inr pr"
  shows "\<exists>b child pr'. prefix p path
      \<and> parseIntAt (drop (length p) path) 0 = Some b \<and> b < length chn \<and> chn ! b = Some child
      \<and> walk child (drop 1 (drop (length p) path)) = Inr pr'
      \<and> pr = rewind pr' child (length p) chn"
proof -
  from assms have sw: "startsWith path p" by (auto split: if_splits)
  with assms obtain child pr' where
    child: "at chn (parseIntAt (drop (length p) path) 0) = Some child"
    and w: "walk child (drop 1 (drop (length p) path)) = Inr pr'"
    and pr: "pr = rewind pr' child (length p) chn"
    by (auto simp: Let_def split: option.splits sum.splits)
  from at_Some [OF child] sw w pr show ?thesis
    by (auto simp: startsWith_prefix)
qed

lemma walk_loop_key:
  "loop dg branch kvs = Inr t \<Longrightarrow> walk t path = Inr pr \<Longrightarrow> set path \<subseteq> set digits \<Longrightarrow>
   \<exists>kv \<in> set kvs. prefix (fst kv) path \<and> value_p pr = snd kv"
proof (induction dg branch kvs arbitrary: t path pr rule: loop.induct)
  case (1 dg branch keyValues)
  note t = "1.prems"(1) and w = "1.prems"(2) and hex = "1.prems"(3)
  show ?case
  proof (cases "length keyValues = 0")
    case True
    with t w show ?thesis
      by (auto simp: loop.simps [of dg branch keyValues] Tree_new_def)
  next
    case ne: False
    show ?thesis
    proof (cases "length keyValues = 1")
      case True
      then obtain kv where kv: "keyValues = [kv]" by (cases keyValues) auto
      with t have "t = Leaf (dg (snd kv)) 1 (fst kv) (snd kv)"
        by (simp add: loop.simps [of dg branch "[kv]"] Leaf_new_eq)
      with w kv show ?thesis
        by (auto simp: startsWith_prefix Proof_new_def split: if_splits)
    next
      case n1: False
      define pre where "pre = commonPrefix (map fst keyValues)"
      define stripped where "stripped = map (\<lambda>kv. (drop (length pre) (fst kv), snd kv)) keyValues"
      from loop_branch [OF t ne n1] obtain trees where
        len: "length trees = 16"
        and sub: "\<And>i. i < 16 \<Longrightarrow> \<exists>acc. bucket (digits ! i) stripped = Inr acc
                    \<and> loop dg [digits ! i] acc = Inr (trees ! i)"
        and b: "BranchNode_new dg pre (map (\<lambda>t. if isEmpty t then None else Some t) trees) = Inr t"
        unfolding pre_def stripped_def by blast
      from BranchNode_new_Inr(1) [OF b] obtain h s where
        tb: "t = BranchNode h s pre (map (\<lambda>t. if isEmpty t then None else Some t) trees)" by blast
      from walk_BranchNode_Inr [OF w [unfolded tb]] len obtain i child pr' where
        pp: "prefix pre path"
        and i: "parseIntAt (drop (length pre) path) 0 = Some i" "i < 16"
        and ch: "map (\<lambda>t. if isEmpty t then None else Some t) trees ! i = Some child"
        and wc: "walk child (drop 1 (drop (length pre) path)) = Inr pr'"
        and pr: "pr = rewind pr' child (length pre) (map (\<lambda>t. if isEmpty t then None else Some t) trees)"
        by auto
      from ch i(2) len have child: "trees ! i = child"
        by (auto split: if_splits)
      from sub [OF i(2)] child obtain acc where
        acc: "bucket (digits ! i) stripped = Inr acc"
        and lc: "loop dg [digits ! i] acc = Inr child" by auto
      from i(2) have d: "digits ! i \<in> set digits" by (intro nth_mem) (simp add: digits_def)
      define path' where "path' = drop (length pre) path"
      from i(1) have pne: "path' \<noteq> []" and pi: "parseInt16 (hd path') = Some i"
        unfolding path'_def by (auto simp: parseIntAt_def hd_conv_nth split: if_splits)
      from pp have path: "path = pre @ path'"
        unfolding path'_def by (metis append_eq_conv_conj prefix_def)
      from pne path hex have "hd path' \<in> set digits" by (cases path') auto
      from parseInt16_digits [OF this pi] have hd: "hd path' = digits ! i" .
      with pne have path': "path' = (digits ! i) # drop 1 path'" by (cases path') auto
      from hex path have hex': "set (drop 1 path') \<subseteq> set digits"
        by (metis (no_types, lifting) Un_subset_iff drop_Suc_Cons drop0 One_nat_def path' set_append set_subset_Cons subset_trans)
      from "1.IH" [OF ne pre_def n1 stripped_def d acc lc wc [folded path'_def] hex']
      obtain kv' where kv': "kv' \<in> set acc" "prefix (fst kv') (drop 1 path')" "value_p pr' = snd kv'"
        by blast
      from bucket_member [OF acc kv'(1)] obtain ks where
        ks: "ks \<in> set stripped" "fst ks \<noteq> []" "hd (fst ks) = digits ! i" "kv' = (tl (fst ks), snd ks)"
        by blast
      from ks(1) obtain kv where kv: "kv \<in> set keyValues" "ks = (drop (length pre) (fst kv), snd kv)"
        unfolding stripped_def by auto
      from kv(1) have "prefix pre (fst kv)"
        unfolding pre_def by (intro commonPrefix_prefix) simp
      then have k: "fst kv = pre @ fst ks"
        using kv(2) by (metis append_eq_conv_conj fst_conv prefix_def)
      from ks(2,3) have ksd: "fst ks = (digits ! i) # tl (fst ks)" by (cases "fst ks") auto
      from kv'(2) ks(4) have "prefix (tl (fst ks)) (drop 1 path')" by simp
      then have "prefix ((digits ! i) # tl (fst ks)) ((digits ! i) # drop 1 path')" by simp
      with ksd path' have "prefix (fst ks) path'" by metis
      with k path have "prefix (fst kv) path" by simp
      moreover from pr kv'(3) ks(4) kv(2) have "value_p pr = snd kv"
        by (simp add: rewind_def)
      ultimately show ?thesis using kv(1) by blast
    qed
  qed
qed

lemma walk_error:
  "walk t path = Inl e \<Longrightarrow>
   \<exists>rest. suffix rest path \<and>
     (e = Error (''cannot walk empty tree with path '' @ rest)
      \<or> (\<exists>p. \<not> startsWith rest p
               \<and> e = AssertionError (''element at remaining path '' @ rest
                        @ '' not in tree: non-matching prefix '' @ p))
      \<or> (\<exists>b. e = AssertionError (''element at remaining path '' @ rest
                        @ '' not in tree: no child at branch '' @ showNumber b)))"
proof (induction t path arbitrary: e rule: walk.induct)
  case (1 h s p path)
  then have "e = Error (''cannot walk empty tree with path '' @ path)" by simp
  then show ?case by (metis suffix_order.refl)
next
  case (2 h s p v path)
  then have "\<not> startsWith path p"
    and "e = AssertionError (''element at remaining path '' @ path @ '' not in tree: non-matching prefix '' @ p)"
    by (auto split: if_splits)
  then show ?case by (metis suffix_order.refl)
next
  case (3 h s p chn path)
  show ?case
  proof (cases "startsWith path p")
    case False
    with "3.prems" have "e = AssertionError (''element at remaining path '' @ path @ '' not in tree: non-matching prefix '' @ p)"
      by simp
    with False show ?thesis by (metis suffix_order.refl)
  next
    case sw: True
    define path' where "path' = drop (length p) path"
    have sp: "suffix path' path" unfolding path'_def by (rule suffix_drop)
    show ?thesis
    proof (cases "at chn (parseIntAt path' 0)")
      case None
      with "3.prems" sw have "e = AssertionError (''element at remaining path '' @ path'
                         @ '' not in tree: no child at branch '' @ showNumber (parseIntAt path' 0))"
        by (simp add: path'_def Let_def)
      with sp show ?thesis by blast
    next
      case (Some child)
      with "3.prems" sw have we: "walk child (drop 1 path') = Inl e"
        by (auto simp: path'_def Let_def split: sum.splits)
      from sw have nn: "\<not> \<not> startsWith path p" by simp
      from "3.IH" [OF nn refl refl refl Some [unfolded path'_def] we [unfolded path'_def]]
      obtain rest where rest: "suffix rest (drop 1 path')"
        and sh: "e = Error (''cannot walk empty tree with path '' @ rest)
      \<or> (\<exists>p. \<not> startsWith rest p
               \<and> e = AssertionError (''element at remaining path '' @ rest
                        @ '' not in tree: non-matching prefix '' @ p))
      \<or> (\<exists>b. e = AssertionError (''element at remaining path '' @ rest
                        @ '' not in tree: no child at branch '' @ showNumber b))"
        unfolding path'_def by blast
      from rest have "suffix rest path'" by (meson suffix_drop suffix_order.trans)
      from this sp have "suffix rest path" by (rule suffix_order.trans)
      with sh show ?thesis by blast
    qed
  qed
qed

lemma loop_Nil: "loop dg branch [] = Inr Tree_new"
  by (simp add: loop.simps [of dg branch "[]"])

lemma walk_loop_no_empty:
  "loop dg branch kvs = Inr t \<Longrightarrow> walk t path = Inl (Error m) \<Longrightarrow> kvs = []"
proof (induction dg branch kvs arbitrary: t path rule: loop.induct)
  case (1 dg branch keyValues)
  note t = "1.prems"(1) and w = "1.prems"(2)
  show ?case
  proof (cases "length keyValues = 0")
    case True
    then show ?thesis by simp
  next
    case ne: False
    show ?thesis
    proof (cases "length keyValues = 1")
      case True
      then obtain kv where kv: "keyValues = [kv]" by (cases keyValues) auto
      with t have "t = Leaf (dg (snd kv)) 1 (fst kv) (snd kv)"
        by (simp add: loop.simps [of dg branch "[kv]"] Leaf_new_eq)
      with w show ?thesis by (auto split: if_splits)
    next
      case n1: False
      define pre where "pre = commonPrefix (map fst keyValues)"
      define stripped where "stripped = map (\<lambda>kv. (drop (length pre) (fst kv), snd kv)) keyValues"
      from loop_branch [OF t ne n1] obtain trees where
        len: "length trees = 16"
        and sub: "\<And>i. i < 16 \<Longrightarrow> \<exists>acc. bucket (digits ! i) stripped = Inr acc
                    \<and> loop dg [digits ! i] acc = Inr (trees ! i)"
        and b: "BranchNode_new dg pre (map (\<lambda>t. if isEmpty t then None else Some t) trees) = Inr t"
        unfolding pre_def stripped_def by blast
      from BranchNode_new_Inr(1) [OF b] obtain h s where
        tb: "t = BranchNode h s pre (map (\<lambda>t. if isEmpty t then None else Some t) trees)" by blast
      from w [unfolded tb] obtain child where
        ch: "at (map (\<lambda>t. if isEmpty t then None else Some t) trees) (parseIntAt (drop (length pre) path) 0) = Some child"
        and wc: "walk child (drop 1 (drop (length pre) path)) = Inl (Error m)"
        by (auto simp: Let_def split: if_splits option.splits sum.splits)
      from at_Some [OF ch] len obtain i where i: "i < 16"
        and ci: "map (\<lambda>t. if isEmpty t then None else Some t) trees ! i = Some child" by auto
      from ci i len have child: "trees ! i = child" and nonempty: "\<not> isEmpty child"
        by (auto split: if_splits)
      from sub [OF i] child obtain acc where
        acc: "bucket (digits ! i) stripped = Inr acc"
        and lc: "loop dg [digits ! i] acc = Inr child" by auto
      from i have d: "digits ! i \<in> set digits" by (intro nth_mem) (simp add: digits_def)
      from "1.IH" [OF ne pre_def n1 stripped_def d acc lc wc] have "acc = []" .
      with lc have "child = Tree_new" by (simp add: loop_Nil)
      with nonempty show ?thesis by (simp add: isEmpty_def Tree_new_def)
    qed
  qed
qed

text \<open>
  C8. On a built tree, \<^verbatim>\<open>prove\<close> of a value that is not among the values of the tree
  throws: an Error on the empty tree, and otherwise an AssertionError for a non-matching
  prefix or for a missing child, each with a message that names the remaining path, a
  suffix of the key of the value. Blake2b enters as two hypotheses: digests have
  \<^verbatim>\<open>DIGEST_LENGTH\<close> bytes, and the digest does not collide on the values concerned.
  \<^verbatim>\<open>prove\<close> returns a proof or an error and nothing else: no tree is updated.
\<close>

theorem prove_absent_value_fails:
  assumes "fromList dg vals = Inr t"
    and "v \<notin> set vals"
    and "inj_on dg (insert v (set vals))"
    and "\<forall>w \<in> insert v (set vals). length (dg w) = DIGEST_LENGTH"
  shows "\<exists>rest. suffix rest (intoKey dg v) \<and>
     (vals = [] \<and> rest = intoKey dg v
        \<and> prove dg t v = Inl (Error (''cannot walk empty tree with path '' @ rest))
      \<or> (\<exists>p. \<not> startsWith rest p
            \<and> prove dg t v = Inl (AssertionError (''element at remaining path '' @ rest
                                     @ '' not in tree: non-matching prefix '' @ p)))
      \<or> (\<exists>b. prove dg t v = Inl (AssertionError (''element at remaining path '' @ rest
                                     @ '' not in tree: no child at branch '' @ showNumber b))))"
proof -
  define kvs where "kvs = map (\<lambda>val. (intoKey dg val, val)) vals"
  from assms(1) have t: "loop dg [] kvs = Inr t" by (simp add: fromList_def kvs_def)
  have hex: "set (intoKey dg v) \<subseteq> set digits" unfolding intoKey_def by (rule toHex_digits)
  have no: "walk t (intoKey dg v) \<noteq> Inr pr" for pr
  proof
    assume "walk t (intoKey dg v) = Inr pr"
    from walk_loop_key [OF t this hex] obtain w where
      w: "w \<in> set vals" and p: "prefix (intoKey dg w) (intoKey dg v)"
      unfolding kvs_def by auto
    from w assms(4) have "length (intoKey dg w) = length (intoKey dg v)"
      by (simp add: intoKey_def toHex_length)
    with p have "intoKey dg w = intoKey dg v"
      by (metis append_eq_append_conv append_Nil2 prefix_def)
    then have "dg w = dg v" unfolding intoKey_def by (rule toHex_inj)
    with assms(3) w have "w = v" by (meson inj_onD insertI1 insertI2)
    with w assms(2) show False by simp
  qed
  then obtain e where e: "walk t (intoKey dg v) = Inl e"
    by (cases "walk t (intoKey dg v)") auto
  from walk_error [OF e] obtain rest where rest: "suffix rest (intoKey dg v)"
    and sh: "e = Error (''cannot walk empty tree with path '' @ rest)
      \<or> (\<exists>p. \<not> startsWith rest p
               \<and> e = AssertionError (''element at remaining path '' @ rest
                        @ '' not in tree: non-matching prefix '' @ p))
      \<or> (\<exists>b. e = AssertionError (''element at remaining path '' @ rest
                        @ '' not in tree: no child at branch '' @ showNumber b))"
    by blast
  show ?thesis
  proof (cases "\<exists>m. e = Error m")
    case True
    then obtain m where "e = Error m" by blast
    with e walk_loop_no_empty [OF t] have "kvs = []" by blast
    then have vals: "vals = []" by (simp add: kvs_def)
    with t have "t = Tree_new" by (simp add: kvs_def loop_Nil)
    then have "prove dg t v = Inl (Error (''cannot walk empty tree with path '' @ intoKey dg v))"
      by (simp add: prove_def Tree_new_def)
    with vals show ?thesis by (metis suffix_order.refl)
  next
    case False
    with sh e rest show ?thesis unfolding prove_def by auto
  qed
qed

theorem prove_absent_value_fails_witness:
  "fromList blake2b_tab [apple, banana] = Inr tree_apple_banana
   \<and> cherry \<notin> set [apple, banana]
   \<and> prove blake2b_tab tree_apple_banana cherry
       = Inl (AssertionError (''element at remaining path '' @ toHex digest_cherry
                @ '' not in tree: no child at branch 8''))
   \<and> (\<exists>rest. suffix rest (intoKey blake2b_tab cherry) \<and>
        ([apple, banana] = [] \<and> rest = intoKey blake2b_tab cherry
           \<and> prove blake2b_tab tree_apple_banana cherry
               = Inl (Error (''cannot walk empty tree with path '' @ rest))
         \<or> (\<exists>p. \<not> startsWith rest p
               \<and> prove blake2b_tab tree_apple_banana cherry
                   = Inl (AssertionError (''element at remaining path '' @ rest
                            @ '' not in tree: non-matching prefix '' @ p)))
         \<or> (\<exists>b. prove blake2b_tab tree_apple_banana cherry
                   = Inl (AssertionError (''element at remaining path '' @ rest
                            @ '' not in tree: no child at branch '' @ showNumber b)))))"
proof -
  have a: "fromList blake2b_tab [apple, banana] = Inr tree_apple_banana" by code_simp
  have b: "cherry \<notin> set [apple, banana]" by code_simp
  have e: "blake2b_tab apple = digest_apple" "blake2b_tab banana = digest_banana"
    "blake2b_tab cherry = digest_cherry" by code_simp+
  have n: "digest_apple \<noteq> digest_banana" "digest_apple \<noteq> digest_cherry"
    "digest_banana \<noteq> digest_cherry" by code_simp+
  have l: "length digest_apple = DIGEST_LENGTH" "length digest_banana = DIGEST_LENGTH"
    "length digest_cherry = DIGEST_LENGTH" by code_simp+
  have c: "inj_on blake2b_tab (insert cherry (set [apple, banana]))"
    unfolding inj_on_def using e n by auto
  have d: "\<forall>w \<in> insert cherry (set [apple, banana]). length (blake2b_tab w) = DIGEST_LENGTH"
    using e l by simp
  have p: "prove blake2b_tab tree_apple_banana cherry
       = Inl (AssertionError (''element at remaining path '' @ toHex digest_cherry
                @ '' not in tree: no child at branch 8''))"
    by code_simp
  from prove_absent_value_fails [OF a b c d] a b p show ?thesis by blast
qed

section \<open>Proof.verify, with the element, on branches without prefix\<close>

text \<open>
  What \<^verbatim>\<open>verify(true)\<close> does compute: when every step of the proof has \<^verbatim>\<open>skip = 0\<close>,
  the nibble at \<^verbatim>\<open>path[cursor]\<close> is the slot the path took, the accumulator goes back into
  its slot and the result is the root hash. The value's key has to be the path walked,
  which digests of one length give.
\<close>

lemma hashes_of_trees:
  "concat (map (\<lambda>node. case node of None \<Rightarrow> [] | Some n \<Rightarrow> [hashOrSelf n]) (map (map_option Inl) chn))
   = map hash (present chn)"
  by (induction chn) (auto simp: hashOrSelf_def present_def split: option.splits)

lemma hashes_of_buffers:
  "concat (map (\<lambda>node. case node of None \<Rightarrow> [] | Some n \<Rightarrow> [hashOrSelf n]) (map (map_option Inr) hs))
   = present hs"
  by (induction hs) (auto simp: hashOrSelf_def present_def split: option.splits)

lemma present_map: "present (map (map_option f) xs) = map f (present xs)"
  by (induction xs) (auto simp: present_def split: option.splits)

lemma BranchNode_setPrefix_trees:
  "BranchNode_setPrefix dg (map (map_option Inl) chn) pre
   = (dg (nibbles pre @ concat (map hash (present chn))), pre)"
  by (simp only: BranchNode_setPrefix_def Let_def hashes_of_trees)

lemma BranchNode_setPrefix_buffers:
  "BranchNode_setPrefix dg (map (map_option Inr) hs) pre = (dg (nibbles pre @ concat (present hs)), pre)"
  by (simp only: BranchNode_setPrefix_def Let_def hashes_of_buffers)

lemma BranchNode_new_hash:
  assumes "BranchNode_new dg pre chn = Inr t"
  shows "t = BranchNode (dg (nibbles pre @ concat (map hash (present chn))))
             (foldl (\<lambda>sz child. sz + (case child of None \<Rightarrow> 0 | Some t \<Rightarrow> size_t t)) 0 chn) pre chn"
  using assms unfolding BranchNode_new_def BranchNode_setPrefix_trees
  by (auto split: if_splits)

lemma loop_hashesOk:
  "loop dg branch kvs = Inr t \<Longrightarrow> hashesOk dg t"
proof (induction dg branch kvs arbitrary: t rule: loop.induct)
  case (1 dg branch keyValues)
  show ?case
  proof (cases "length keyValues = 0")
    case True
    with "1.prems" show ?thesis
      by (auto simp: loop.simps [of dg branch keyValues] Tree_new_def)
  next
    case ne: False
    show ?thesis
    proof (cases "length keyValues = 1")
      case True
      with "1.prems" ne show ?thesis
        by (auto simp: loop.simps [of dg branch keyValues] Leaf_new_eq Let_def)
    next
      case n1: False
      from loop_branch [OF "1.prems" ne n1] obtain trees where
        len: "length trees = 16"
        and sub: "\<And>i. i < 16 \<Longrightarrow> \<exists>acc. bucket (digits ! i)
                          (map (\<lambda>kv. (drop (length (commonPrefix (map fst keyValues))) (fst kv), snd kv)) keyValues) = Inr acc
                    \<and> loop dg [digits ! i] acc = Inr (trees ! i)"
        and b: "BranchNode_new dg (commonPrefix (map fst keyValues))
            (map (\<lambda>t. if isEmpty t then None else Some t) trees) = Inr t"
        by blast
      have "hashesOk dg x" if x: "x \<in> set trees" for x
      proof -
        from x len obtain i where i: "i < 16" "trees ! i = x"
          by (metis in_set_conv_nth)
        from sub [OF i(1)] i(2) obtain acc where
          acc: "bucket (digits ! i) (map (\<lambda>kv. (drop (length (commonPrefix (map fst keyValues))) (fst kv), snd kv)) keyValues) = Inr acc"
          and lx: "loop dg [digits ! i] acc = Inr x" by auto
        from i(1) have d: "digits ! i \<in> set digits" by (intro nth_mem) (simp add: digits_def)
        from "1.IH" [OF ne refl n1 refl d acc lx] show ?thesis .
      qed
      then have "list_all (\<lambda>node. case node of None \<Rightarrow> True | Some t \<Rightarrow> hashesOk dg t)
                   (map (\<lambda>t. if isEmpty t then None else Some t) trees)"
        by (auto simp: list_all_iff)
      with BranchNode_new_hash [OF b] show ?thesis by simp
    qed
  qed
qed

text \<open>The cursor of \<^verbatim>\<open>verify\<close>: the sum of \<^verbatim>\<open>1 + step.skip\<close> over the steps.\<close>

lemma foldl_cursor:
  "foldl (\<lambda>cursor step. cursor + 1 + skip step) c sts
   = c + foldl (\<lambda>cursor step. cursor + 1 + skip step) 0 sts"
proof (induction sts arbitrary: c)
  case Nil
  show ?case by simp
next
  case (Cons st sts)
  from Cons.IH [of "c + 1 + skip st"] Cons.IH [of "0 + 1 + skip st"] show ?case by simp
qed

lemma verify_children_restores:
  assumes "b < length chn" and "chn ! b = Some child"
  shows "verify_children (map (map_option hash) (take b chn @ drop (Suc b) chn)) (Some b) (Some (hash child))
         = map (map_option hash) chn"
proof -
  from assms have "chn = take b chn @ Some child # drop (Suc b) chn"
    by (metis id_take_nth_drop)
  then have "map (map_option hash) chn
      = map (map_option hash) (take b chn) @ Some (hash child) # map (map_option hash) (drop (Suc b) chn)"
    by (metis list.simps(9) map_append option.simps(9))
  moreover from assms(1) have "length (map (map_option hash) (take b chn)) = b" by simp
  ultimately show ?thesis
    by (simp add: verify_children_def)
qed

lemma verify_walk:
  assumes "walk t path = Inr pr" and "sixteenSlots t" and "distinctSiblingHashes t"
    and "hashesOk dg t" and "list_all (\<lambda>step. skip step = 0) (steps pr)"
    and "key = consumed @ path"
  shows "foldr (verify_step dg key) (steps pr)
           (length consumed + foldl (\<lambda>cursor step. cursor + 1 + skip step) 0 (steps pr),
            Some (dg (value_p pr)))
         = (length consumed, Some (hash t))"
  using assms
proof (induction t path arbitrary: pr consumed rule: walk.induct)
  case (1 h s p path)
  then show ?case by simp
next
  case (2 h s p v path)
  then show ?case by (auto simp: Proof_new_def split: if_splits)
next
  case (3 h s p chn path)
  from walk_BranchNode_Inr [OF "3.prems"(1)] obtain b child pr' where
    pp: "prefix p path"
    and pb: "parseIntAt (drop (length p) path) 0 = Some b"
    and b: "b < length chn" "chn ! b = Some child"
    and w: "walk child (drop 1 (drop (length p) path)) = Inr pr'"
    and pr: "pr = rewind pr' child (length p) chn"
    by blast
  have st: "steps pr = \<lparr>skip = length p, neighbors = rewind_neighbors child chn\<rparr> # steps pr'"
    and vp: "value_p pr = value_p pr'"
    unfolding pr by (simp_all add: rewind_def)
  from "3.prems"(5) st have p0: "p = []" and sk: "list_all (\<lambda>step. skip step = 0) (steps pr')"
    by simp_all
  from "3.prems"(2) have len: "length chn = 16"
    and all16: "list_all (\<lambda>node. case node of None \<Rightarrow> True | Some t \<Rightarrow> sixteenSlots t) chn" by simp_all
  from "3.prems"(3) have dc: "distinct (map hash (present chn))"
    and alld: "list_all (\<lambda>node. case node of None \<Rightarrow> True | Some t \<Rightarrow> distinctSiblingHashes t) chn" by simp_all
  from "3.prems"(4) have h: "h = dg (nibbles p @ concat (map hash (present chn)))"
    and allh: "list_all (\<lambda>node. case node of None \<Rightarrow> True | Some t \<Rightarrow> hashesOk dg t) chn" by simp_all
  from b have cm: "Some child \<in> set chn" by (metis nth_mem)
  with all16 alld allh have c16: "sixteenSlots child" and cd: "distinctSiblingHashes child"
    and chh: "hashesOk dg child"
    by (auto simp: list_all_iff)
  from pb p0 have pne: "path \<noteq> []" and pi: "parseInt16 (path ! 0) = Some b"
    by (auto simp: parseIntAt_def split: if_splits)
  then have path: "path = path ! 0 # drop 1 path" by (cases path) auto
  with "3.prems"(6) have key: "key = (consumed @ [path ! 0]) @ drop 1 path" by simp
  from pp have sw: "\<not> \<not> startsWith path p" by (simp add: startsWith_prefix)
  from w p0 have w': "walk child (drop 1 (drop (length p) path)) = Inr pr'" by simp
  from at_def [of chn "Some b"] b have atb: "at chn (parseIntAt (drop (length p) path) 0) = Some child"
    using pb by simp
  from key p0 have key': "key = (consumed @ [path ! 0]) @ drop 1 (drop (length p) path)" by simp
  from "3.IH" [OF sw refl refl refl atb w' c16 cd chh sk key']
  have ih: "foldr (verify_step dg key) (steps pr')
           (length consumed + 1 + foldl (\<lambda>cursor step. cursor + 1 + skip step) 0 (steps pr'),
            Some (dg (value_p pr')))
         = (length consumed + 1, Some (hash child))" by simp
  have cur: "foldl (\<lambda>cursor step. cursor + 1 + skip step) 0 (steps pr)
           = 1 + foldl (\<lambda>cursor step. cursor + 1 + skip step) 0 (steps pr')"
    unfolding st using p0 foldl_cursor [of 1 "steps pr'"] by simp
  have nib: "parseIntAt key (length consumed) = Some b"
    using "3.prems"(6) pne pi by (simp add: parseIntAt_def nth_append)
  have nbs: "rewind_neighbors child chn = map (map_option hash) (take b chn @ drop (Suc b) chn)"
    using b dc by (rule rewind_neighbors_distinct)
  have "verify_step dg key \<lparr>skip = length p, neighbors = rewind_neighbors child chn\<rparr>
          (length consumed + 1, Some (hash child))
        = (length consumed,
           Some (fst (BranchNode_setPrefix dg
             (map (map_option Inr)
                (verify_children (rewind_neighbors child chn) (parseIntAt key (length consumed))
                   (Some (hash child)))) [])))"
    by (simp add: verify_step_def p0 Let_def)
  also have "\<dots> = (length consumed,
           Some (fst (BranchNode_setPrefix dg (map (map_option Inr) (map (map_option hash) chn)) [])))"
    by (simp only: nib nbs verify_children_restores [OF b])
  also have "\<dots> = (length consumed, Some h)"
    by (simp only: BranchNode_setPrefix_buffers present_map h p0 fst_conv)
  finally have "verify_step dg key \<lparr>skip = length p, neighbors = rewind_neighbors child chn\<rparr>
          (length consumed + 1, Some (hash child)) = (length consumed, Some h)" .
  moreover have "foldl (\<lambda>cursor step. Suc (cursor + skip step)) (Suc 0) (steps pr')
      = Suc (foldl (\<lambda>cursor step. Suc (cursor + skip step)) 0 (steps pr'))"
    using foldl_cursor [of "Suc 0" "steps pr'"] by simp
  ultimately show ?case
    using ih unfolding st vp by (simp add: p0)
qed

lemma verify_with_element_root_if_no_skip:
  assumes "fromList dg vals = Inr t" and "prove dg t v = Inr pr"
    and "distinctSiblingHashes t"
    and "\<forall>w \<in> insert v (set vals). length (dg w) = DIGEST_LENGTH"
    and "list_all (\<lambda>step. skip step = 0) (steps pr)"
  shows "verify dg pr True = Some (hash t)"
proof -
  define kvs where "kvs = map (\<lambda>val. (intoKey dg val, val)) vals"
  from assms(1) have t: "loop dg [] kvs = Inr t" by (simp add: fromList_def kvs_def)
  from assms(2) have w: "walk t (intoKey dg v) = Inr pr" by (simp add: prove_def)
  have hex: "set (intoKey dg v) \<subseteq> set digits" unfolding intoKey_def by (rule toHex_digits)
  from walk_loop_key [OF t w hex] obtain u where
    u: "u \<in> set vals" and p: "prefix (intoKey dg u) (intoKey dg v)" and vp: "value_p pr = u"
    unfolding kvs_def by auto
  from u assms(4) have "length (intoKey dg u) = length (intoKey dg v)"
    by (simp add: intoKey_def toHex_length)
  with p have "intoKey dg u = intoKey dg v"
    by (metis append_eq_append_conv append_Nil2 prefix_def)
  with vp have key: "intoKey dg (value_p pr) = [] @ intoKey dg v" by simp
  from verify_walk [OF w loop_sixteenSlots [OF t] assms(3) loop_hashesOk [OF t] assms(5) key]
  show ?thesis
    by (simp add: verify_def Leaf_setPrefix_def Let_def)
qed

end
